theory Spec2Isabelle
  imports Complex_Main "HOL-Library.AList" "HOL-Library.List_Lexorder"
begin

section \<open>Data model\<close>

text \<open>
  A Python \<open>dict\<close> keeps its keys distinct and iterates in insertion order. It is
  modelled as an association list in that order: \<open>d.get(k)\<close> is \<open>map_of d k\<close>,
  \<open>d[k] = v\<close> is \<open>AList.update k v d\<close> (the value is replaced in place when the key is
  there, the pair is appended otherwise) and \<open>d.setdefault(k, v)\<close> appends the pair
  only when the key is new. Python strings are \<open>string\<close>; a character outside ASCII
  is its UTF-8 bytes.
\<close>

type_synonym 'v dict = "(string \<times> 'v) list"

definition setdefault :: "'v dict \<Rightarrow> string \<Rightarrow> 'v \<Rightarrow> 'v dict" where
  "setdefault d k v = (if k \<in> set (map fst d) then d else d @ [(k, v)])"

text \<open>The source priority list, index 0 the highest authority.\<close>

definition SOURCE_NAMES :: "string list" where
  "SOURCE_NAMES =
     [''local_xcodebuild'', ''apple_docs_json'', ''apple_support'', ''xcodereleases'',
      ''apple_archive_9'', ''apple_archive_47'', ''wikipedia_history'', ''wikipedia_xcode'']"

definition SOURCE_URLS :: "string dict" where
  "SOURCE_URLS =
     [(''local_xcodebuild'', ''local:xcodebuild -showsdks''),
      (''apple_docs_json'',
        ''https://developer.apple.com/tutorials/data/documentation/xcode-release-notes/''),
      (''apple_support'', ''https://developer.apple.com/support/xcode/''),
      (''xcodereleases'', ''https://xcodereleases.com/data.json''),
      (''apple_archive_9'',
        ''https://developer.apple.com/library/archive/releasenotes/DeveloperTools/RN-Xcode/Chapters/Introduction.html''),
      (''apple_archive_47'',
        ''https://developer.apple.com/library/archive/documentation/Xcode/Conceptual/RN-Xcode-Archive/Chapters/''),
      (''wikipedia_history'', ''https://en.wikipedia.org/wiki/History_of_Xcode''),
      (''wikipedia_xcode'', ''https://en.wikipedia.org/wiki/Xcode'')]"

section \<open>Version normalisation helpers\<close>

text \<open>\<open>_normalize_xcode_ver\<close>: \<open>return ver if "." in ver else ver + ".0"\<close>.\<close>

definition normalize_xcode_ver :: "string \<Rightarrow> string" where
  "normalize_xcode_ver ver = (if CHR ''.'' \<in> set ver then ver else ver @ ''.0'')"

text \<open>
  \<open>_normalize_source_keys\<close>: the loop over \<open>data.items()\<close> is a fold over the
  pairs in iteration order, each step one \<open>out.setdefault\<close>.
\<close>

definition normalize_source_keys :: "string dict \<Rightarrow> string dict" where
  "normalize_source_keys data =
     fold (\<lambda>(ver, sdk) out. setdefault out (normalize_xcode_ver ver) sdk) data []"


text \<open>The step of that loop, named for the proofs.\<close>

definition nsk_step :: "string \<times> string \<Rightarrow> string dict \<Rightarrow> string dict" where
  "nsk_step = (\<lambda>(ver, sdk) out. setdefault out (normalize_xcode_ver ver) sdk)"

section \<open>Python string helpers\<close>

text \<open>
  \<open>s.split(sep)\<close> for a one-character separator: every occurrence splits, so the
  result is never empty and \<open>"".split(".")\<close> is \<open>[""]\<close>. The last case of the
  inner \<open>case\<close> is never reached.
\<close>

fun split_on :: "char \<Rightarrow> string \<Rightarrow> string list" where
  "split_on sep [] = ['''']"
| "split_on sep (c # cs) =
     (if c = sep then [] # split_on sep cs
      else (case split_on sep cs of p # ps \<Rightarrow> (c # p) # ps | [] \<Rightarrow> [c # '''']))"

text \<open>\<open>sep.join(parts)\<close>.\<close>

fun join_with :: "string \<Rightarrow> string list \<Rightarrow> string" where
  "join_with sep [] = []"
| "join_with sep [p] = p"
| "join_with sep (p # q # ps) = p @ sep @ join_with sep (q # ps)"

text \<open>
  Python's builtin \<open>int\<close> is no code of this repository, and what it accepts goes
  beyond ASCII (the decimal digits and the blanks of every script, a bound on the number
  of digits). The functions that call it therefore take it as a parameter \<open>py_int\<close>,
  a function from strings to \<open>int option\<close> that is \<open>None\<close> where \<open>int\<close>
  raises \<open>ValueError\<close>, and their properties are proved for every such function.

  \<open>ascii_int\<close> below is what \<open>int\<close> does on an ASCII string of up to 4300
  digits: whitespace is stripped at both ends, one sign may lead, and the rest is
  decimal digits, where single underscores may stand between two digits. It is used to
  run the functions on concrete versions.
\<close>

definition is_space :: "char \<Rightarrow> bool" where
  "is_space c = (c \<in> set [CHR 0x09, CHR 0x0A, CHR 0x0B, CHR 0x0C, CHR 0x0D, CHR 0x20])"

definition is_digit :: "char \<Rightarrow> bool" where
  "is_digit c = (48 \<le> (of_char c :: nat) \<and> (of_char c :: nat) \<le> 57)"

definition digit_value :: "char \<Rightarrow> int" where
  "digit_value c = int (of_char c) - 48"

definition strip :: "string \<Rightarrow> string" where
  "strip s = rev (dropWhile is_space (rev (dropWhile is_space s)))"

fun digits_from :: "int \<Rightarrow> string \<Rightarrow> int option" where
  "digits_from acc [] = Some acc"
| "digits_from acc [c] = (if is_digit c then Some (acc * 10 + digit_value c) else None)"
| "digits_from acc (c # d # cs) =
     (if is_digit c then digits_from (acc * 10 + digit_value c) (d # cs)
      else if c = CHR ''_'' \<and> is_digit d then digits_from acc (d # cs)
      else None)"

definition digits :: "string \<Rightarrow> int option" where
  "digits s = (case s of [] \<Rightarrow> None | c # _ \<Rightarrow> if is_digit c then digits_from 0 s else None)"

definition ascii_int :: "string \<Rightarrow> int option" where
  "ascii_int s =
     (case strip s of
        [] \<Rightarrow> None
      | c # cs \<Rightarrow>
          if c = CHR ''-'' then map_option uminus (digits cs)
          else if c = CHR ''+'' then digits cs
          else digits (c # cs))"

section \<open>Cross-reference engine\<close>

datatype status = consensus | single_source | conflict | not_found

text \<open>
  The exceptions the engine's code can raise: \<open>next(iter(d))\<close> on an empty dictionary
  and \<open>d[k]\<close> on a missing key.
\<close>

datatype py_error = StopIteration | KeyError

text \<open>
  The dictionary \<open>cross_reference\<close> returns. \<open>agreement\<close> is a Python float; it is
  modelled by the rational number it stands for (see \<open>py_round2\<close>). An entry of
  \<open>sources\<close> is the pair of its \<open>"value"\<close> and its \<open>"url"\<close>.
\<close>

record resolution =
  xcode :: string
  ios_sdk :: "string option"
  status :: status
  chosen_from :: "string option"
  agreement :: rat
  sources :: "(string \<times> string) dict"

text \<open>The placeholder for a source without data, an em dash (U+2014), as its UTF-8 bytes.\<close>

definition no_data :: string where
  "no_data = [CHR 0xE2, CHR 0x80, CHR 0x94]"

text \<open>\<open>".".join(parts[:2])\<close>.\<close>

definition major_minor :: "string list \<Rightarrow> string" where
  "major_minor parts = join_with ''.'' (take 2 parts)"

text \<open>
  The body of the loop over \<open>all_sources.items()\<close>: the value of \<open>sdk\<close> after the
  direct lookup and the retry with the first two of exactly three components.
\<close>

definition lookup_sdk :: "string dict \<Rightarrow> string \<Rightarrow> string option" where
  "lookup_sdk src_data xcode_ver =
     (case map_of src_data xcode_ver of
        Some sdk \<Rightarrow> Some sdk
      | None \<Rightarrow>
          (let parts = split_on CHR ''.'' xcode_ver
           in if length parts = 3 then map_of src_data (major_minor parts) else None))"

text \<open>
  The loop itself. \<open>per_source\<close> is written by the loop and never read afterwards,
  so only \<open>found_values\<close> is kept.
\<close>

definition found_values :: "string \<Rightarrow> (string dict) dict \<Rightarrow> string dict" where
  "found_values xcode_ver all_sources =
     fold (\<lambda>(src_name, src_data) found.
             case lookup_sdk src_data xcode_ver of
               None \<Rightarrow> found
             | Some sdk \<Rightarrow> AList.update src_name sdk found)
          all_sources []"

text \<open>
  \<open>_url_for\<close>. The global table \<open>_VERSION_URLS\<close>, which the source adapters fill
  before the engine runs, is a parameter. \<open>if url:\<close> holds for a string that is
  there and not empty.
\<close>

definition url_for :: "(string dict) dict \<Rightarrow> string \<Rightarrow> string \<Rightarrow> string" where
  "url_for VERSION_URLS xcode_ver src_name =
     (let ver_urls = (case map_of VERSION_URLS src_name of Some d \<Rightarrow> d | None \<Rightarrow> []);
          base = (case map_of SOURCE_URLS src_name of Some u \<Rightarrow> u | None \<Rightarrow> []);
          parts = split_on CHR ''.'' xcode_ver;
          retry = (if length parts = 3
                   then (case map_of ver_urls (major_minor parts) of
                           Some u \<Rightarrow> if u \<noteq> [] then u else base
                         | None \<Rightarrow> base)
                   else base)
      in case map_of ver_urls xcode_ver of
           Some u \<Rightarrow> if u \<noteq> [] then u else retry
         | None \<Rightarrow> retry)"

text \<open>
  \<open>round(x, 2)\<close>. Python rounds the float to the nearest multiple of \<open>0.01\<close>, a tie
  going to the even multiple. On rationals this is exact whenever the quotient is no tie
  or is a tie that a float holds exactly (an odd number of eighths); these are all the
  quotients with a denominator up to 8, the number of sources.
\<close>

definition round_half_even :: "rat \<Rightarrow> int" where
  "round_half_even x =
     (let f = \<lfloor>x\<rfloor>; d = x - of_int f
      in if d < 1 / 2 then f
         else if 1 / 2 < d then f + 1
         else if even f then f else f + 1)"

definition py_round2 :: "rat \<Rightarrow> rat" where
  "py_round2 x = of_int (round_half_even (x * 100)) / 100"

text \<open>
  \<open>next((s for s in SOURCE_NAMES if p(s)), next(iter(found_values)))\<close>: Python
  evaluates the default first, which raises on an empty dictionary, and then scans.
\<close>

definition first_by_authority ::
  "(string \<Rightarrow> bool) \<Rightarrow> string dict \<Rightarrow> py_error + string" where
  "first_by_authority p found =
     (case found of
        [] \<Rightarrow> Inl StopIteration
      | (first_found, _) # _ \<Rightarrow>
          (case find p SOURCE_NAMES of Some s \<Rightarrow> Inr s | None \<Rightarrow> Inr first_found))"

text \<open>The branch \<open>len(unique_values) == 1\<close>.\<close>

definition resolve_unique ::
  "string dict \<Rightarrow> string list \<Rightarrow> py_error + (string \<times> status \<times> string \<times> rat)" where
  "resolve_unique found unique_values =
     (let sdk = hd unique_values;
          n = length found;
          st = (if n > 1 then consensus else single_source)
      in case first_by_authority (\<lambda>s. map_of found s = Some sdk) found of
           Inl e \<Rightarrow> Inl e
         | Inr chosen \<Rightarrow> Inr (sdk, st, chosen, 1))"

text \<open>The branch of two or more distinct values.\<close>

definition resolve_conflict ::
  "string dict \<Rightarrow> py_error + (string \<times> status \<times> string \<times> rat)" where
  "resolve_conflict found =
     (case first_by_authority (\<lambda>s. s \<in> set (map fst found)) found of
        Inl e \<Rightarrow> Inl e
      | Inr chosen \<Rightarrow>
          (case map_of found chosen of
             None \<Rightarrow> Inl KeyError
           | Some sdk \<Rightarrow>
               (let n_agree = length (filter (\<lambda>v. v = sdk) (map snd found));
                    agr = (if found \<noteq> [] then of_nat n_agree / of_nat (length found) else 0)
                in Inr (sdk, conflict, chosen, agr))))"

definition cross_reference ::
  "(string dict) dict \<Rightarrow> string \<Rightarrow> (string dict) dict \<Rightarrow> py_error + resolution" where
  "cross_reference VERSION_URLS xcode_ver all_sources =
     (let found = found_values xcode_ver all_sources;
          unique_values = remdups (map snd found)
      in if unique_values = [] then
           Inr \<lparr>xcode = xcode_ver, ios_sdk = None, status = not_found,
                chosen_from = None, agreement = 0,
                sources = map (\<lambda>(s, _). (s, (no_data, url_for VERSION_URLS xcode_ver s)))
                              all_sources\<rparr>
         else
           (case (if length unique_values = 1 then resolve_unique found unique_values
                  else resolve_conflict found) of
              Inl e \<Rightarrow> Inl e
            | Inr (sdk, st, chosen, agr) \<Rightarrow>
                Inr \<lparr>xcode = xcode_ver, ios_sdk = Some sdk, status = st,
                     chosen_from = Some chosen, agreement = py_round2 agr,
                     sources =
                       map (\<lambda>(s, _).
                              (s, ((case map_of found s of
                                      Some v \<Rightarrow> if v \<noteq> [] then v else no_data
                                    | None \<Rightarrow> no_data),
                                   url_for VERSION_URLS xcode_ver s)))
                           all_sources\<rparr>))"

text \<open>
  What the sources report for a version, read off \<open>all_sources\<close> directly: the pairs
  of a source and the value its lookup gives, in the order of the sources. The claims
  are stated against this list.
\<close>

definition reported :: "string \<Rightarrow> (string dict) dict \<Rightarrow> string dict" where
  "reported xcode_ver all_sources =
     List.map_filter (\<lambda>(s, d). map_option (Pair s) (lookup_sdk d xcode_ver)) all_sources"

section \<open>Output helpers\<close>

text \<open>
  \<open>ver_key\<close>: the list comprehension raises \<open>ValueError\<close> at the first component
  that is no integer, and the handler returns \<open>[0]\<close>. Python compares the keys, lists
  of integers, lexicographically, a proper prefix being smaller: the order of
  \<open>int list\<close> here.
\<close>

definition ver_key :: "(string \<Rightarrow> int option) \<Rightarrow> string \<Rightarrow> int list" where
  "ver_key py_int v =
     (case those (map py_int (split_on CHR ''.'' v)) of Some ks \<Rightarrow> ks | None \<Rightarrow> [0])"

text \<open>
  \<open>_results_to_flat\<close>. \<open>sorted\<close> is stable, as \<open>sort_key\<close> is;
  \<open>if r.get("ios_sdk")\<close> holds for a value that is there and not the empty string.
\<close>

definition results_to_flat ::
  "(string \<Rightarrow> int option) \<Rightarrow> resolution list \<Rightarrow> string dict" where
  "results_to_flat py_int results =
     fold (\<lambda>r flat.
             case ios_sdk r of
               None \<Rightarrow> flat
             | Some sdk \<Rightarrow> if sdk \<noteq> [] then AList.update (xcode r) sdk flat else flat)
          (sort_key (\<lambda>r. ver_key py_int (xcode r)) results) []"

text \<open>For the proofs: the test of the loop of \<open>_results_to_flat\<close>, and its step.\<close>

definition kept :: "resolution \<Rightarrow> bool" where
  "kept r = (\<exists>sdk. ios_sdk r = Some sdk \<and> sdk \<noteq> [])"

definition flat_step :: "resolution \<Rightarrow> string dict \<Rightarrow> string dict" where
  "flat_step = (\<lambda>r flat.
             case ios_sdk r of
               None \<Rightarrow> flat
             | Some sdk \<Rightarrow> if sdk \<noteq> [] then AList.update (xcode r) sdk flat else flat)"

text \<open>Three records, newest first as \<open>main\<close> produces them, to run the output helpers on.\<close>

definition sample_results :: "resolution list" where
  "sample_results =
     [\<lparr>xcode = ''10.0'', ios_sdk = Some ''12.0'', status = consensus,
       chosen_from = Some ''apple_support'', agreement = 1, sources = []\<rparr>,
      \<lparr>xcode = ''7.1'', ios_sdk = None, status = not_found,
       chosen_from = None, agreement = 0, sources = []\<rparr>,
      \<lparr>xcode = ''9.2'', ios_sdk = Some ''11.2'', status = single_source,
       chosen_from = Some ''xcodereleases'', agreement = 1, sources = []\<rparr>]"

section \<open>Main\<close>

text \<open>What \<open>json.loads\<close> returns.\<close>

datatype json = JNull | JBool bool | JNumber rat | JString string
  | JArray "json list" | JObject "(string \<times> json) list"

text \<open>
  The file at \<open>args.json\<close> before the run: not there, there but reading or parsing
  it raises, or loaded.
\<close>

datatype previous = No_file | Load_failed | Loaded json

text \<open>
  \<open>flat_old != flat_new\<close>. A Python string equals only a string, and a dictionary
  only a dictionary: of the same length, each key of the one in the other with an equal
  value.
\<close>

fun json_eq_str :: "json \<Rightarrow> string \<Rightarrow> bool" where
  "json_eq_str (JString s) t = (s = t)"
| "json_eq_str _ t = False"

definition dict_eq_flat :: "(string \<times> json) list \<Rightarrow> string dict \<Rightarrow> bool" where
  "dict_eq_flat a b =
     (length a = length b
      \<and> list_all (\<lambda>(k, av). case map_of b k of None \<Rightarrow> False | Some bv \<Rightarrow> json_eq_str av bv) a)"

definition json_eq_flat :: "json \<Rightarrow> string dict \<Rightarrow> bool" where
  "json_eq_flat j b = (case j of JObject a \<Rightarrow> dict_eq_flat a b | _ \<Rightarrow> False)"

definition map_changed :: "previous \<Rightarrow> string dict \<Rightarrow> bool" where
  "map_changed prev flat_new =
     (case prev of
        No_file \<Rightarrow> True
      | Load_failed \<Rightarrow> True
      | Loaded flat_old \<Rightarrow> \<not> json_eq_flat flat_old flat_new)"

text \<open>
  How the process ends: \<open>sys.exit(arg)\<close> or an exception nobody catches. The exit
  status of \<open>sys.exit\<close> is the integer it is given; given a string, Python prints it
  to stderr and the status is 1, as it is after an uncaught exception.
\<close>

datatype exit_arg = Exit_code int | Exit_message string

datatype ending = Sys_exit exit_arg | Uncaught py_error

fun exit_status :: "ending \<Rightarrow> int" where
  "exit_status (Sys_exit (Exit_code n)) = n"
| "exit_status (Sys_exit (Exit_message m)) = 1"
| "exit_status (Uncaught e) = 1"

datatype written = Flat_output "string dict" | Detailed_output "resolution list"

record args =
  detailed :: bool
  conflicts_only :: bool

record run =
  reconciled :: "resolution list option"
  wrote :: "written option"
  ending :: ending

text \<open>\<open>{s: raw_sources.get(s, {}) for s in SOURCE_NAMES}\<close>.\<close>

definition ordered_sources :: "(string dict) dict \<Rightarrow> (string dict) dict" where
  "ordered_sources raw_sources =
     map (\<lambda>s. (s, case map_of raw_sources s of Some d \<Rightarrow> d | None \<Rightarrow> [])) SOURCE_NAMES"

text \<open>The loop of step 4, which stops at the first exception.\<close>

fun cross_reference_all ::
  "(string dict) dict \<Rightarrow> (string dict) dict \<Rightarrow> string list \<Rightarrow> py_error + resolution list" where
  "cross_reference_all VERSION_URLS srcs [] = Inr []"
| "cross_reference_all VERSION_URLS srcs (ver # vers) =
     (case cross_reference VERSION_URLS ver srcs of
        Inl e \<Rightarrow> Inl e
      | Inr entry \<Rightarrow>
          (case cross_reference_all VERSION_URLS srcs vers of
             Inl e \<Rightarrow> Inl e
           | Inr results \<Rightarrow> Inr (entry # results)))"

text \<open>
  \<open>main\<close> from step 2 on. Its inputs are the list \<open>xcodes_versions\<close> of step 1, the
  dictionaries the eight source functions returned (\<open>fetched\<close>, in the order they
  completed), the table \<open>_VERSION_URLS\<close> they filled, and the file of the previous run.
  The builtin \<open>int\<close> is the parameter \<open>py_int\<close>.
  Printing and the counters that are only printed are left out. \<open>all_versions\<close> is a
  Python set, iterated in an order of its own; the model takes insertion order, which
  shows only among versions of equal \<open>ver_key\<close>. \<open>sorted(..., reverse=True)\<close>
  keeps the order of equal keys.
\<close>

definition main ::
  "(string \<Rightarrow> int option) \<Rightarrow> args \<Rightarrow> string list \<Rightarrow> (string dict) dict \<Rightarrow> (string dict) dict
     \<Rightarrow> previous \<Rightarrow> run" where
  "main py_int a xcodes_versions fetched VERSION_URLS prev =
     (let raw_sources =
            fold (\<lambda>(name, data) raw. AList.update name (normalize_source_keys data) raw)
                 fetched [];
          srcs = ordered_sources raw_sources;
          all_versions =
            remdups (xcodes_versions @ concat (map (\<lambda>(_, src_data). map fst src_data) srcs))
      in if all_versions = [] then
           \<lparr>reconciled = None, wrote = None,
            ending = Sys_exit (Exit_message
              ''ERROR: No Xcode versions found from any source. Check network.'')\<rparr>
         else
           (let sorted_versions = rev (sort_key (ver_key py_int) (rev all_versions))
            in case cross_reference_all VERSION_URLS srcs sorted_versions of
                 Inl e \<Rightarrow> \<lparr>reconciled = None, wrote = None, ending = Uncaught e\<rparr>
               | Inr results \<Rightarrow>
                   (let output_rows =
                          (if conflicts_only a
                           then filter (\<lambda>r. status r = conflict \<or> status r = not_found) results
                           else results);
                        flat_new = results_to_flat py_int output_rows;
                        changed = map_changed prev flat_new
                    in \<lparr>reconciled = Some results,
                        wrote = Some (if detailed a then Detailed_output output_rows
                                       else Flat_output flat_new),
                        ending = Sys_exit (Exit_code (if changed then 1 else 0))\<rparr>)))"

section \<open>Normalisation: properties\<close>

lemma dot_in_normalize_xcode_ver: "CHR ''.'' \<in> set (normalize_xcode_ver ver)"
  by (simp add: normalize_xcode_ver_def)

text \<open>
  Claim C8. A version string without a dot gets \<open>.0\<close> appended, a version string with
  a dot is returned as it is, and normalising twice is normalising once.
\<close>

theorem normalize_xcode_ver_spec:
  "(CHR ''.'' \<notin> set v \<longrightarrow> normalize_xcode_ver v = v @ ''.0'')
   \<and> (CHR ''.'' \<in> set v \<longrightarrow> normalize_xcode_ver v = v)
   \<and> normalize_xcode_ver (normalize_xcode_ver x) = normalize_xcode_ver x"
  by (simp add: normalize_xcode_ver_def)

theorem normalize_xcode_ver_spec_witness:
  "CHR ''.'' \<notin> set ''9'' \<and> normalize_xcode_ver ''9'' = ''9'' @ ''.0''
   \<and> CHR ''.'' \<in> set ''9.0'' \<and> normalize_xcode_ver ''9.0'' = ''9.0''
   \<and> normalize_xcode_ver (normalize_xcode_ver ''15'') = normalize_xcode_ver ''15''"
  using normalize_xcode_ver_spec [of "''9''" "''15''"]
        normalize_xcode_ver_spec [of "''9.0''" "''15''"]
  by simp

lemma map_of_setdefault:
  "map_of (setdefault d k v) k' =
     (case map_of d k' of Some x \<Rightarrow> Some x | None \<Rightarrow> if k' = k then Some v else None)"
proof (cases "k \<in> set (map fst d)")
  case True
  then have "map_of d k \<noteq> None" by (simp add: map_of_eq_None_iff)
  with True show ?thesis by (auto simp: setdefault_def split: option.splits)
next
  case False
  then show ?thesis by (auto simp: setdefault_def map_add_def split: option.splits)
qed

lemma distinct_setdefault:
  "distinct (map fst d) \<Longrightarrow> distinct (map fst (setdefault d k v))"
  by (simp add: setdefault_def)

lemma set_setdefault: "set (setdefault d k v) \<subseteq> insert (k, v) (set d)"
  by (auto simp: setdefault_def)

lemma normalize_source_keys_fold: "normalize_source_keys data = fold nsk_step data []"
  by (simp add: normalize_source_keys_def nsk_step_def)

lemma distinct_fold_nsk:
  "distinct (map fst acc) \<Longrightarrow> distinct (map fst (fold nsk_step data acc))"
proof (induction data arbitrary: acc)
  case Nil
  then show ?case by simp
next
  case (Cons p data)
  have "distinct (map fst (nsk_step p acc))"
    using Cons.prems by (cases p) (simp add: nsk_step_def distinct_setdefault)
  then show ?case by (simp add: Cons.IH)
qed

lemma set_fold_nsk:
  "set (fold nsk_step data acc)
     \<subseteq> set acc \<union> (\<lambda>(k, v). (normalize_xcode_ver k, v)) ` set data"
proof (induction data arbitrary: acc)
  case Nil
  show ?case by simp
next
  case (Cons p data)
  obtain k v where p: "p = (k, v)" by (cases p)
  have "set (fold nsk_step data (nsk_step p acc))
          \<subseteq> set (nsk_step p acc) \<union> (\<lambda>(k, v). (normalize_xcode_ver k, v)) ` set data"
    by (rule Cons.IH)
  moreover have "set (nsk_step p acc) \<subseteq> insert (normalize_xcode_ver k, v) (set acc)"
    by (simp add: p nsk_step_def set_setdefault)
  ultimately show ?case by (auto simp: p)
qed

lemma map_of_fold_nsk:
  "map_of (fold nsk_step data acc) k =
     (case map_of acc k of Some x \<Rightarrow> Some x
      | None \<Rightarrow> map_option snd (find (\<lambda>(k0, v). normalize_xcode_ver k0 = k) data))"
proof (induction data arbitrary: acc)
  case Nil
  show ?case by (simp split: option.splits)
next
  case (Cons p data)
  obtain k0 v where p: "p = (k0, v)" by (cases p)
  have step: "nsk_step (k0, v) acc = setdefault acc (normalize_xcode_ver k0) v"
    by (simp add: nsk_step_def)
  show ?case
    by (simp add: Cons.IH step map_of_setdefault p split: option.splits)
qed

text \<open>
  Claim C10. Every key of the result contains a dot and is the normalisation of an input
  key that carried the same value; every input key is there, normalised; the result is
  again a dictionary; and a key of the result holds the value of the first input pair, in
  iteration order, whose key normalises to it, so that \<open>"9"\<close> before \<open>"9.0"\<close>
  keeps the value of \<open>"9"\<close>.
\<close>

theorem normalize_source_keys_first_wins:
  "(\<forall>(k, v) \<in> set (normalize_source_keys data).
       CHR ''.'' \<in> set k \<and> (\<exists>k0. (k0, v) \<in> set data \<and> k = normalize_xcode_ver k0))
   \<and> set (map fst (normalize_source_keys data)) = normalize_xcode_ver ` set (map fst data)
   \<and> distinct (map fst (normalize_source_keys data))
   \<and> (\<forall>k. map_of (normalize_source_keys data) k =
          map_option snd (find (\<lambda>(k0, v). normalize_xcode_ver k0 = k) data))
   \<and> normalize_source_keys [(''9'', a), (''9.0'', b)] = [(''9.0'', a)]"
proof -
  let ?out = "normalize_source_keys data"
  have sub: "set ?out \<subseteq> (\<lambda>(k, v). (normalize_xcode_ver k, v)) ` set data"
    using set_fold_nsk [of data "[]"] by (simp add: normalize_source_keys_fold)
  have m: "map_of ?out k = map_option snd (find (\<lambda>(k0, v). normalize_xcode_ver k0 = k) data)"
    for k
    by (simp add: normalize_source_keys_fold map_of_fold_nsk)
  have 1: "\<forall>(k, v) \<in> set ?out.
       CHR ''.'' \<in> set k \<and> (\<exists>k0. (k0, v) \<in> set data \<and> k = normalize_xcode_ver k0)"
    using sub by (auto simp: dot_in_normalize_xcode_ver)
  have 2: "set (map fst ?out) = normalize_xcode_ver ` set (map fst data)"
  proof -
    have "k \<in> set (map fst ?out) \<longleftrightarrow> k \<in> normalize_xcode_ver ` set (map fst data)" for k
    proof -
      have "k \<in> set (map fst ?out) \<longleftrightarrow> map_of ?out k \<noteq> None"
        by (simp add: map_of_eq_None_iff)
      also have "\<dots> \<longleftrightarrow> find (\<lambda>(k0, v). normalize_xcode_ver k0 = k) data \<noteq> None"
        by (simp add: m)
      also have "\<dots> \<longleftrightarrow> k \<in> normalize_xcode_ver ` set (map fst data)"
        by (force simp: find_None_iff)
      finally show ?thesis .
    qed
    then show ?thesis by blast
  qed
  have 3: "distinct (map fst ?out)"
    using distinct_fold_nsk [of "[]" data] by (simp add: normalize_source_keys_fold)
  have 5: "normalize_source_keys [(''9'', a), (''9.0'', b)] = [(''9.0'', a)]"
    by (simp add: normalize_source_keys_def setdefault_def normalize_xcode_ver_def)
  show ?thesis using 1 2 3 m 5 by blast
qed

theorem normalize_source_keys_first_wins_witness:
  "normalize_source_keys [(''9'', ''13.0''), (''9.0'', ''11.0''), (''10.1'', ''12.1'')]
     = [(''9.0'', ''13.0''), (''10.1'', ''12.1'')]
   \<and> map_of (normalize_source_keys [(''9'', ''13.0''), (''9.0'', ''11.0''), (''10.1'', ''12.1'')])
        ''9.0'' = Some ''13.0''
   \<and> distinct (map fst
        (normalize_source_keys [(''9'', ''13.0''), (''9.0'', ''11.0''), (''10.1'', ''12.1'')]))"
proof -
  have e: "normalize_source_keys [(''9'', ''13.0''), (''9.0'', ''11.0''), (''10.1'', ''12.1'')]
     = [(''9.0'', ''13.0''), (''10.1'', ''12.1'')]"
    by (simp add: normalize_source_keys_def setdefault_def normalize_xcode_ver_def)
  show ?thesis
    using normalize_source_keys_first_wins
      [of "[(''9'', ''13.0''), (''9.0'', ''11.0''), (''10.1'', ''12.1'')]"]
    by (simp add: e normalize_xcode_ver_def)
qed

section \<open>Cross-reference engine: what the loop collects\<close>

lemma update_fresh: "k \<notin> fst ` set al \<Longrightarrow> AList.update k v al = al @ [(k, v)]"
  by (induction al) auto

lemma reported_Nil: "reported v [] = []"
  by (simp add: reported_def map_filter_simps)

lemma reported_Cons:
  "reported v ((s, d) # S) =
     (case lookup_sdk d v of None \<Rightarrow> reported v S | Some x \<Rightarrow> (s, x) # reported v S)"
  by (simp add: reported_def map_filter_simps split: option.splits)

lemma set_reported:
  "(s, x) \<in> set (reported v S) \<longleftrightarrow> (\<exists>d. (s, d) \<in> set S \<and> lookup_sdk d v = Some x)"
  by (induction S) (auto simp: reported_Nil reported_Cons split: option.splits)

lemma keys_reported: "fst ` set (reported v S) \<subseteq> fst ` set S"
proof
  fix k assume "k \<in> fst ` set (reported v S)"
  then obtain x where "(k, x) \<in> set (reported v S)" by auto
  then obtain d where "(k, d) \<in> set S" by (auto simp: set_reported)
  then show "k \<in> fst ` set S" by force
qed

lemma distinct_reported: "distinct (map fst S) \<Longrightarrow> distinct (map fst (reported v S))"
proof (induction S)
  case Nil
  show ?case by (simp add: reported_Nil)
next
  case (Cons p S)
  obtain s d where p: "p = (s, d)" by (cases p)
  have "s \<notin> fst ` set (reported v S)"
    using Cons.prems keys_reported [of v S] by (auto simp: p)
  with Cons show ?case by (auto simp: p reported_Cons split: option.splits)
qed

lemma fold_found_reported:
  "distinct (map fst S) \<Longrightarrow> fst ` set acc \<inter> fst ` set S = {} \<Longrightarrow>
   fold (\<lambda>(src_name, src_data) found.
           case lookup_sdk src_data v of
             None \<Rightarrow> found
           | Some sdk \<Rightarrow> AList.update src_name sdk found) S acc
     = acc @ reported v S"
proof (induction S arbitrary: acc)
  case Nil
  show ?case by (simp add: reported_Nil)
next
  case (Cons p S)
  obtain s d where p: "p = (s, d)" by (cases p)
  from Cons.prems have s: "s \<notin> fst ` set acc" "s \<notin> fst ` set S" "distinct (map fst S)"
    and disj: "fst ` set acc \<inter> fst ` set S = {}"
    by (auto simp: p)
  show ?case
  proof (cases "lookup_sdk d v")
    case None
    with Cons.IH [OF s(3) disj] show ?thesis by (simp add: p reported_Cons)
  next
    case (Some x)
    have "fst ` set (acc @ [(s, x)]) \<inter> fst ` set S = {}"
      using s disj by auto
    from Cons.IH [OF s(3) this] Some s(1) show ?thesis
      by (simp add: p reported_Cons update_fresh)
  qed
qed

lemma found_values_reported:
  "distinct (map fst S) \<Longrightarrow> found_values v S = reported v S"
  using fold_found_reported [of S "[]" v] by (simp add: found_values_def)

lemma first_by_authority_total:
  "found \<noteq> [] \<Longrightarrow> \<exists>s. first_by_authority p found = Inr s"
  by (cases found) (auto simp: first_by_authority_def split: option.splits)

lemma first_by_authority_find:
  "found \<noteq> [] \<Longrightarrow> find p SOURCE_NAMES = Some s \<Longrightarrow> first_by_authority p found = Inr s"
  by (cases found) (auto simp: first_by_authority_def)

lemma first_by_authority_key:
  assumes "first_by_authority (\<lambda>s. s \<in> set (map fst found)) found = Inr s"
  shows "s \<in> fst ` set found"
proof (cases found)
  case Nil
  with assms show ?thesis by (simp add: first_by_authority_def)
next
  case (Cons p rest)
  show ?thesis
  proof (cases "find (\<lambda>s. s \<in> set (map fst found)) SOURCE_NAMES")
    case None
    with assms Cons have "s = fst p"
      by (cases p) (simp add: first_by_authority_def)
    with Cons show ?thesis by simp
  next
    case (Some t)
    with assms Cons have "s = t" by (cases p) (simp add: first_by_authority_def)
    with Some show ?thesis by (auto simp: find_Some_iff)
  qed
qed

lemma round_half_even_of_int: "round_half_even (of_int n) = n"
  by (simp add: round_half_even_def)

lemma round_half_even_lower: "\<lfloor>x\<rfloor> \<le> round_half_even x"
  by (simp add: round_half_even_def Let_def)

lemma round_half_even_upper: "round_half_even x \<le> \<lfloor>x\<rfloor> + 1"
  by (simp add: round_half_even_def Let_def)

lemma py_round2_1: "py_round2 1 = 1"
  using round_half_even_of_int [of 100] by (simp add: py_round2_def)

lemma py_round2_range:
  assumes "0 \<le> x" "x \<le> 1"
  shows "0 \<le> py_round2 x \<and> py_round2 x \<le> 1"
proof -
  have lo: "0 \<le> \<lfloor>x * 100\<rfloor>" using assms by simp
  have "round_half_even (x * 100) \<le> 100"
  proof (cases "x = 1")
    case True
    then show ?thesis using round_half_even_of_int [of 100] by simp
  next
    case False
    with assms have "x * 100 < 100" by simp
    then have "\<lfloor>x * 100\<rfloor> < 100" by (simp add: floor_less_iff)
    with round_half_even_upper [of "x * 100"] show ?thesis by linarith
  qed
  moreover have "0 \<le> round_half_even (x * 100)"
    using lo round_half_even_lower [of "x * 100"] by linarith
  ultimately show ?thesis by (simp add: py_round2_def)
qed

lemma py_round2_strict:
  assumes "1 / 8 \<le> x" "x \<le> 7 / 8"
  shows "0 < py_round2 x \<and> py_round2 x < 1"
proof -
  have "12 \<le> \<lfloor>x * 100\<rfloor>" using assms by (simp add: le_floor_iff)
  with round_half_even_lower [of "x * 100"] have lo: "12 \<le> round_half_even (x * 100)"
    by linarith
  have "x * 100 < 88" using assms by simp
  then have "\<lfloor>x * 100\<rfloor> < 88" by (simp add: floor_less_iff)
  with round_half_even_upper [of "x * 100"] have hi: "round_half_even (x * 100) \<le> 88"
    by linarith
  from lo hi show ?thesis by (simp add: py_round2_def)
qed

lemma cross_reference_not_found:
  assumes "found_values v S = []"
  shows "\<exists>r. cross_reference U v S = Inr r \<and> xcode r = v \<and> ios_sdk r = None
           \<and> status r = not_found \<and> chosen_from r = None \<and> agreement r = 0"
  using assms by (simp add: cross_reference_def)

lemma cross_reference_unique:
  assumes "remdups (map snd (found_values v S)) = [sdk]"
  shows "\<exists>r chosen. cross_reference U v S = Inr r \<and> xcode r = v \<and> ios_sdk r = Some sdk
           \<and> status r = (if 1 < length (found_values v S) then consensus else single_source)
           \<and> first_by_authority (\<lambda>s. map_of (found_values v S) s = Some sdk) (found_values v S)
                 = Inr chosen
           \<and> chosen_from r = Some chosen \<and> agreement r = 1"
proof -
  let ?f = "found_values v S"
  have ne: "?f \<noteq> []" using assms by auto
  obtain chosen where "first_by_authority (\<lambda>s. map_of ?f s = Some sdk) ?f = Inr chosen"
    using first_by_authority_total [OF ne] by blast
  then show ?thesis
    using assms ne by (simp add: cross_reference_def resolve_unique_def py_round2_1 Let_def)
qed

lemma cross_reference_conflict:
  assumes "2 \<le> length (remdups (map snd (found_values v S)))"
  shows "\<exists>r chosen sdk. cross_reference U v S = Inr r
           \<and> first_by_authority (\<lambda>s. s \<in> set (map fst (found_values v S))) (found_values v S)
                 = Inr chosen
           \<and> map_of (found_values v S) chosen = Some sdk
           \<and> xcode r = v \<and> ios_sdk r = Some sdk \<and> status r = conflict
           \<and> chosen_from r = Some chosen
           \<and> agreement r =
                 py_round2 (of_nat (length (filter (\<lambda>x. x = sdk) (map snd (found_values v S))))
                            / of_nat (length (found_values v S)))"
proof -
  let ?f = "found_values v S"
  have ne: "?f \<noteq> []" using assms by auto
  have u: "remdups (map snd ?f) \<noteq> []" "length (remdups (map snd ?f)) \<noteq> 1"
    using assms by auto
  obtain chosen where c: "first_by_authority (\<lambda>s. s \<in> set (map fst ?f)) ?f = Inr chosen"
    using first_by_authority_total [OF ne] by blast
  then have "chosen \<in> fst ` set ?f" by (rule first_by_authority_key)
  then obtain sdk where m: "map_of ?f chosen = Some sdk"
    by (cases "map_of ?f chosen") (auto simp: map_of_eq_None_iff)
  have "resolve_conflict ?f =
          Inr (sdk, conflict, chosen,
               of_nat (length (filter (\<lambda>x. x = sdk) (map snd ?f))) / of_nat (length ?f))"
    unfolding resolve_conflict_def c using ne m by (simp add: Let_def)
  then show ?thesis
    using u c m by (simp add: cross_reference_def Let_def)
qed

lemma remdups_one:
  "length (remdups xs) = 1 \<longleftrightarrow> xs \<noteq> [] \<and> (\<forall>x\<in>set xs. \<forall>y\<in>set xs. x = y)"
proof -
  have "length (remdups xs) = 1 \<longleftrightarrow> card (set xs) = 1"
    by (simp add: length_remdups_card_conv)
  also have "\<dots> \<longleftrightarrow> (\<exists>a. set xs = {a})" by (auto simp: card_1_singleton_iff)
  also have "\<dots> \<longleftrightarrow> xs \<noteq> [] \<and> (\<forall>x\<in>set xs. \<forall>y\<in>set xs. x = y)"
  proof
    assume "\<exists>a. set xs = {a}"
    then show "xs \<noteq> [] \<and> (\<forall>x\<in>set xs. \<forall>y\<in>set xs. x = y)" by auto
  next
    assume a: "xs \<noteq> [] \<and> (\<forall>x\<in>set xs. \<forall>y\<in>set xs. x = y)"
    then obtain z where "z \<in> set xs" by (cases xs) auto
    with a have "set xs = {z}" by auto
    then show "\<exists>a. set xs = {a}" ..
  qed
  finally show ?thesis .
qed

lemma remdups_cases:
  obtains (none) "xs = []"
  | (one) x where "remdups xs = [x]" "xs \<noteq> []" "\<forall>y\<in>set xs. y = x"
  | (more) "2 \<le> length (remdups xs)" "xs \<noteq> []" "\<exists>x\<in>set xs. \<exists>y\<in>set xs. x \<noteq> y"
proof (cases "length (remdups xs)" rule: linorder_cases [of _ 1])
  case less
  then have "xs = []" by simp
  then show ?thesis by (rule none)
next
  case equal
  then obtain x where x: "remdups xs = [x]" by (cases "remdups xs") auto
  from equal have "xs \<noteq> []" "\<forall>x\<in>set xs. \<forall>y\<in>set xs. x = y"
    using remdups_one [of xs] by blast+
  moreover have "x \<in> set xs" using x by (metis list.set_intros(1) set_remdups)
  ultimately show ?thesis using x by (intro one) auto
next
  case greater
  then have ne: "xs \<noteq> []" by auto
  from greater have "length (remdups xs) \<noteq> 1" by simp
  with ne have "\<exists>x\<in>set xs. \<exists>y\<in>set xs. x \<noteq> y"
    using remdups_one [of xs] by blast
  with greater ne show ?thesis by (intro more) auto
qed

text \<open>
  Claim C2. With \<open>all_sources\<close> a dictionary, \<open>cross_reference\<close> returns a
  record, and its status is \<open>consensus\<close> exactly when two or more sources report
  (directly or through the fallback) and all their values are the same,
  \<open>single_source\<close> exactly when one source reports, \<open>conflict\<close> exactly when two
  or more report and two of the values differ, and \<open>not_found\<close> exactly when none
  reports.
\<close>

theorem cross_reference_status:
  assumes "distinct (map fst all_sources)"
  shows "\<exists>r. cross_reference U v all_sources = Inr r
     \<and> (status r = consensus \<longleftrightarrow>
            2 \<le> length (reported v all_sources)
            \<and> (\<forall>x \<in> snd ` set (reported v all_sources).
                 \<forall>y \<in> snd ` set (reported v all_sources). x = y))
     \<and> (status r = single_source \<longleftrightarrow> length (reported v all_sources) = 1)
     \<and> (status r = conflict \<longleftrightarrow>
            2 \<le> length (reported v all_sources)
            \<and> (\<exists>x \<in> snd ` set (reported v all_sources).
                 \<exists>y \<in> snd ` set (reported v all_sources). x \<noteq> y))
     \<and> (status r = not_found \<longleftrightarrow> length (reported v all_sources) = 0)"
proof -
  let ?R = "reported v all_sources"
  have f: "found_values v all_sources = ?R"
    using assms by (rule found_values_reported)
  show ?thesis
  proof (cases "map snd ?R" rule: remdups_cases)
    case none
    then have R: "?R = []" by simp
    then obtain r where "cross_reference U v all_sources = Inr r" "status r = not_found"
      using cross_reference_not_found [of v all_sources U] f by auto
    with R show ?thesis by simp
  next
    case (one x)
    then obtain r where r: "cross_reference U v all_sources = Inr r"
      "status r = (if 1 < length ?R then consensus else single_source)"
      using cross_reference_unique [of v all_sources x U] f by auto
    from one have ne: "?R \<noteq> []" and same: "\<forall>y \<in> snd ` set ?R. y = x" by auto
    from ne have len: "1 \<le> length ?R" by (cases ?R) simp_all
    show ?thesis
    proof (cases "1 < length ?R")
      case True
      then have "2 \<le> length ?R" "length ?R \<noteq> 1" by simp_all
      with True r same ne show ?thesis by auto
    next
      case False
      with len have "length ?R = 1" "\<not> 2 \<le> length ?R" by simp_all
      with False r show ?thesis by auto
    qed
  next
    case more
    then obtain r where r: "cross_reference U v all_sources = Inr r" "status r = conflict"
      using cross_reference_conflict [of v all_sources U] f by auto
    have "length (remdups (map snd ?R)) \<le> length ?R"
      using length_remdups_leq [of "map snd ?R"] by simp
    with more have "2 \<le> length ?R" by simp
    moreover from more have "\<exists>x \<in> snd ` set ?R. \<exists>y \<in> snd ` set ?R. x \<noteq> y" by simp
    ultimately show ?thesis using r by auto
  qed
qed

theorem cross_reference_status_witness:
  "distinct (map fst [(''local_xcodebuild'', [(''9.0'', ''17.2'')]),
                      (''xcodereleases'', [(''9.0'', ''17.2'')])])
   \<and> (\<exists>r. cross_reference [] ''9.0''
              [(''local_xcodebuild'', [(''9.0'', ''17.2'')]),
               (''xcodereleases'', [(''9.0'', ''17.2'')])] = Inr r
          \<and> status r = consensus)
   \<and> length (reported ''9.0''
              [(''local_xcodebuild'', [(''9.0'', ''17.2'')]),
               (''xcodereleases'', [(''9.0'', ''17.2'')])]) = 2"
proof -
  let ?S = "[(''local_xcodebuild'', [(''9.0'', ''17.2'')]),
             (''xcodereleases'', [(''9.0'', ''17.2'')])]"
  have d: "distinct (map fst ?S)" by simp
  have R: "reported ''9.0'' ?S = [(''local_xcodebuild'', ''17.2''), (''xcodereleases'', ''17.2'')]"
    by (simp add: reported_Cons reported_Nil lookup_sdk_def)
  from cross_reference_status [OF d, of "[]" "''9.0''"] R d show ?thesis
    by auto
qed


text \<open>
  Claim C7. With \<open>all_sources\<close> a dictionary, \<open>cross_reference\<close> returns a
  record, and a resolved SDK value that is present is the value some source of
  \<open>all_sources\<close> reports for the version: no value is made up.
\<close>

theorem resolved_value_reported:
  assumes "distinct (map fst all_sources)"
  shows "\<exists>r. cross_reference U v all_sources = Inr r
     \<and> (\<forall>sdk. ios_sdk r = Some sdk \<longrightarrow>
            (\<exists>s d. (s, d) \<in> set all_sources \<and> lookup_sdk d v = Some sdk))"
proof -
  let ?R = "reported v all_sources"
  have f: "found_values v all_sources = ?R"
    using assms by (rule found_values_reported)
  have rep: "\<exists>s d. (s, d) \<in> set all_sources \<and> lookup_sdk d v = Some x"
    if "x \<in> snd ` set ?R" for x
  proof -
    from that obtain s where "(s, x) \<in> set ?R" by auto
    then show ?thesis by (auto simp: set_reported)
  qed
  show ?thesis
  proof (cases "map snd ?R" rule: remdups_cases)
    case none
    then have "found_values v all_sources = []" using f by simp
    from cross_reference_not_found [OF this, of U] show ?thesis by auto
  next
    case (one x)
    then obtain r where r: "cross_reference U v all_sources = Inr r" "ios_sdk r = Some x"
      using cross_reference_unique [of v all_sources x U] f by auto
    have "x \<in> set (remdups (map snd ?R))" using one by simp
    then have "x \<in> snd ` set ?R" by simp
    from rep [OF this] r show ?thesis by auto
  next
    case more
    then obtain r chosen sdk where r: "cross_reference U v all_sources = Inr r"
      "map_of ?R chosen = Some sdk" "ios_sdk r = Some sdk"
      using cross_reference_conflict [of v all_sources U] f by auto
    from r(2) have "(chosen, sdk) \<in> set ?R" by (rule map_of_SomeD)
    then have "sdk \<in> snd ` set ?R" by force
    from rep [OF this] r show ?thesis by auto
  qed
qed

theorem resolved_value_reported_witness:
  "distinct (map fst [(''apple_support'', [(''8.3'', ''16.0'')])])
   \<and> (\<exists>r. cross_reference [] ''8.3'' [(''apple_support'', [(''8.3'', ''16.0'')])] = Inr r
          \<and> ios_sdk r = Some ''16.0''
          \<and> (\<exists>s d. (s, d) \<in> set [(''apple_support'', [(''8.3'', ''16.0'')])]
                   \<and> lookup_sdk d ''8.3'' = Some ''16.0''))"
proof -
  let ?S = "[(''apple_support'', [(''8.3'', ''16.0'')])]"
  have d: "distinct (map fst ?S)" by simp
  have fv: "found_values ''8.3'' ?S = [(''apple_support'', ''16.0'')]"
    by (simp add: found_values_def lookup_sdk_def)
  obtain r where r: "cross_reference [] ''8.3'' ?S = Inr r" "ios_sdk r = Some ''16.0''"
    using cross_reference_unique [of "''8.3''" ?S "''16.0''" "[]"] fv by auto
  from resolved_value_reported [OF d, of "[]" "''8.3''"] r d show ?thesis
    by auto
qed

text \<open>
  The dictionary \<open>main\<close> hands to the engine has the names of \<open>SOURCE_NAMES\<close> as
  its keys, in that order, whatever the source functions returned.
\<close>

lemma ordered_sources_keys: "map fst (ordered_sources raw_sources) = SOURCE_NAMES"
  by (simp add: ordered_sources_def comp_def)

lemma distinct_SOURCE_NAMES: "distinct SOURCE_NAMES"
  by (simp add: SOURCE_NAMES_def)

lemma ordered_sources_wellformed:
  "distinct (map fst (ordered_sources raw_sources))
   \<and> set (map fst (ordered_sources raw_sources)) \<subseteq> set SOURCE_NAMES"
  by (simp only: ordered_sources_keys distinct_SOURCE_NAMES) simp

lemma source_count:
  assumes "distinct (map fst S)" "set (map fst S) \<subseteq> set SOURCE_NAMES"
  shows "length (reported v S) \<le> 8"
proof -
  have "length (reported v S) = card (fst ` set (reported v S))"
    using distinct_reported [OF assms(1), of v] by (metis distinct_card length_map list.set_map)
  also have "\<dots> \<le> card (set SOURCE_NAMES)"
    using keys_reported [of v S] assms(2) by (intro card_mono) auto
  also have "\<dots> \<le> length SOURCE_NAMES" by (rule card_length)
  also have "\<dots> = 8" by (simp add: SOURCE_NAMES_def)
  finally show ?thesis .
qed

lemma first_in_authority_order:
  assumes "found \<noteq> []" "set (map fst found) \<subseteq> set SOURCE_NAMES"
    "first_by_authority (\<lambda>s. s \<in> set (map fst found)) found = Inr chosen"
  shows "find (\<lambda>s. s \<in> set (map fst found)) SOURCE_NAMES = Some chosen"
proof (cases "find (\<lambda>s. s \<in> set (map fst found)) SOURCE_NAMES")
  case None
  from assms(1) obtain k where "k \<in> set (map fst found)" by (cases found) auto
  with assms(2) have "\<exists>s \<in> set SOURCE_NAMES. s \<in> set (map fst found)" by auto
  with None show ?thesis by (simp add: find_None_iff)
next
  case (Some t)
  from first_by_authority_find [OF assms(1) Some] assms(3) Some show ?thesis by simp
qed

lemma agreement_bounds:
  fixes k n :: nat
  assumes "1 \<le> k" "k < n" "n \<le> 8"
  shows "1 / 8 \<le> (of_nat k :: rat) / of_nat n" "(of_nat k :: rat) / of_nat n \<le> 7 / 8"
proof -
  have n: "0 < (of_nat n :: rat)" using assms by simp
  have "n \<le> 8 * k" using assms by simp
  then have "(of_nat n :: rat) \<le> of_nat (8 * k)" by (simp only: of_nat_le_iff)
  then have a: "(of_nat n :: rat) \<le> 8 * of_nat k" by simp
  show "1 / 8 \<le> (of_nat k :: rat) / of_nat n"
    using n a by (simp add: field_simps)
  have "8 * k \<le> 7 * n" using assms by simp
  then have "(of_nat (8 * k) :: rat) \<le> of_nat (7 * n)" by (simp only: of_nat_le_iff)
  then have b: "8 * (of_nat k :: rat) \<le> 7 * of_nat n" by simp
  show "(of_nat k :: rat) / of_nat n \<le> 7 / 8"
    using n b by (simp add: field_simps)
qed

lemma length_filter_snd:
  "length (filter (\<lambda>x. x = sdk) (map snd R)) = length (filter (\<lambda>(s, x). x = sdk) R)"
  by (induction R) auto

text \<open>
  Claim C3, as amended. For the sources of \<open>SOURCE_NAMES\<close>, the agreement of a
  record with a resolved value is the quotient of the number of sources reporting that
  value by the number of sources reporting, rounded to two decimals; it lies between 0
  and 1, is 1 for \<open>consensus\<close> and \<open>single_source\<close>, lies strictly between 0 and
  1 for \<open>conflict\<close>, and is 0 for \<open>not_found\<close>.
\<close>

theorem agreement_rounded_ratio:
  assumes "distinct (map fst all_sources)" "set (map fst all_sources) \<subseteq> set SOURCE_NAMES"
  shows "\<exists>r. cross_reference U v all_sources = Inr r
     \<and> 0 \<le> agreement r \<and> agreement r \<le> 1
     \<and> (status r = consensus \<or> status r = single_source \<longrightarrow> agreement r = 1)
     \<and> (status r = conflict \<longrightarrow> 0 < agreement r \<and> agreement r < 1)
     \<and> (status r = not_found \<longrightarrow> agreement r = 0)
     \<and> (\<forall>sdk. ios_sdk r = Some sdk \<longrightarrow>
            agreement r =
              py_round2 (of_nat (length (filter (\<lambda>(s, x). x = sdk) (reported v all_sources)))
                         / of_nat (length (reported v all_sources))))"
proof -
  let ?R = "reported v all_sources"
  have f: "found_values v all_sources = ?R"
    using assms(1) by (rule found_values_reported)
  show ?thesis
  proof (cases "map snd ?R" rule: remdups_cases)
    case none
    then have "found_values v all_sources = []" using f by simp
    from cross_reference_not_found [OF this, of U] show ?thesis by auto
  next
    case (one x)
    then obtain r where r: "cross_reference U v all_sources = Inr r" "ios_sdk r = Some x"
      "status r = (if 1 < length ?R then consensus else single_source)" "agreement r = 1"
      using cross_reference_unique [of v all_sources x U] f by auto
    from one have "\<forall>p \<in> set ?R. (\<lambda>(s, y). y = x) p" by auto
    then have "filter (\<lambda>(s, y). y = x) ?R = ?R" by (rule filter_True)
    moreover from one have "(of_nat (length ?R) :: rat) \<noteq> 0" by simp
    ultimately have "py_round2 (of_nat (length (filter (\<lambda>(s, y). y = x) ?R))
                                / of_nat (length ?R)) = 1"
      by (simp add: py_round2_1)
    with r show ?thesis by auto
  next
    case more
    then obtain r chosen sdk where r: "cross_reference U v all_sources = Inr r"
      "map_of ?R chosen = Some sdk" "ios_sdk r = Some sdk" "status r = conflict"
      "agreement r = py_round2 (of_nat (length (filter (\<lambda>x. x = sdk) (map snd ?R)))
                                / of_nat (length ?R))"
      using cross_reference_conflict [of v all_sources U] f by auto
    let ?k = "length (filter (\<lambda>(s, x). x = sdk) ?R)"
    have agr: "agreement r = py_round2 (of_nat ?k / of_nat (length ?R))"
      using r(5) by (simp only: length_filter_snd)
    from r(2) have "(chosen, sdk) \<in> set ?R" by (rule map_of_SomeD)
    then have "(chosen, sdk) \<in> set (filter (\<lambda>(s, x). x = sdk) ?R)" by simp
    then have "filter (\<lambda>(s, x). x = sdk) ?R \<noteq> []" by (metis empty_iff empty_set)
    then have k1: "1 \<le> ?k" by (cases "filter (\<lambda>(s, x). x = sdk) ?R") simp_all
    from more(3) obtain y where "y \<in> set (map snd ?R)" "y \<noteq> sdk" by metis
    then obtain s where sy: "(s, y) \<in> set ?R" "\<not> (\<lambda>(s, x). x = sdk) (s, y)" by auto
    have k2: "?k < length ?R" using sy by (rule length_filter_less)
    have n8: "length ?R \<le> 8" using assms by (rule source_count)
    from agreement_bounds [OF k1 k2 n8] py_round2_strict
    have "0 < agreement r \<and> agreement r < 1" unfolding agr by blast
    with r agr show ?thesis by auto
  qed
qed


lemma py_round2_third: "py_round2 (1 / 3) = 33 / 100"
proof -
  have f: "\<lfloor>100 / 3 :: rat\<rfloor> = 33" by (rule floor_unique) simp_all
  have "round_half_even (100 / 3) = 33"
    by (simp add: round_half_even_def f)
  then show ?thesis by (simp add: py_round2_def)
qed

theorem agreement_ratio_counterexample:
  "cross_reference [] ''9.0''
        [(''local_xcodebuild'', [(''9.0'', ''17.2'')]),
         (''apple_docs_json'', [(''9.0'', ''17.0'')]),
         (''apple_support'', [(''9.0'', ''17.0'')])]
   = Inr \<lparr>xcode = ''9.0'', ios_sdk = Some ''17.2'', status = conflict,
          chosen_from = Some ''local_xcodebuild'', agreement = 33 / 100,
          sources =
            [(''local_xcodebuild'', (''17.2'', ''local:xcodebuild -showsdks'')),
             (''apple_docs_json'', (''17.0'',
                ''https://developer.apple.com/tutorials/data/documentation/xcode-release-notes/'')),
             (''apple_support'', (''17.0'', ''https://developer.apple.com/support/xcode/''))]\<rparr>
   \<and> (33 / 100 :: rat) \<noteq>
       of_nat (length (filter (\<lambda>(s, x). x = ''17.2'')
          (reported ''9.0''
            [(''local_xcodebuild'', [(''9.0'', ''17.2'')]),
             (''apple_docs_json'', [(''9.0'', ''17.0'')]),
             (''apple_support'', [(''9.0'', ''17.0'')])])))
       / of_nat (length (reported ''9.0''
            [(''local_xcodebuild'', [(''9.0'', ''17.2'')]),
             (''apple_docs_json'', [(''9.0'', ''17.0'')]),
             (''apple_support'', [(''9.0'', ''17.0'')])]))"
proof -
  have a: "py_round2 (1 / 3) = 33 / 100" by (rule py_round2_third)
  show ?thesis
    by (simp add: cross_reference_def found_values_def lookup_sdk_def resolve_conflict_def
      first_by_authority_def SOURCE_NAMES_def SOURCE_URLS_def url_for_def a
      reported_Cons reported_Nil Let_def)
qed

theorem agreement_rounded_ratio_witness:
  "distinct (map fst [(''local_xcodebuild'', [(''9.0'', ''17.2'')]),
                      (''apple_docs_json'', [(''9.0'', ''17.0'')]),
                      (''apple_support'', [(''9.0'', ''17.0'')])])
   \<and> set (map fst [(''local_xcodebuild'', [(''9.0'', ''17.2'')]),
                    (''apple_docs_json'', [(''9.0'', ''17.0'')]),
                    (''apple_support'', [(''9.0'', ''17.0'')])]) \<subseteq> set SOURCE_NAMES
   \<and> (\<exists>r. cross_reference [] ''9.0''
              [(''local_xcodebuild'', [(''9.0'', ''17.2'')]),
               (''apple_docs_json'', [(''9.0'', ''17.0'')]),
               (''apple_support'', [(''9.0'', ''17.0'')])] = Inr r
          \<and> status r = conflict \<and> ios_sdk r = Some ''17.2''
          \<and> agreement r = py_round2 (1 / 3) \<and> 0 < agreement r \<and> agreement r < 1)"
proof -
  let ?S = "[(''local_xcodebuild'', [(''9.0'', ''17.2'')]),
             (''apple_docs_json'', [(''9.0'', ''17.0'')]),
             (''apple_support'', [(''9.0'', ''17.0'')])]"
  have d: "distinct (map fst ?S)" by simp
  have sub: "set (map fst ?S) \<subseteq> set SOURCE_NAMES" by (simp add: SOURCE_NAMES_def)
  have R: "reported ''9.0'' ?S =
      [(''local_xcodebuild'', ''17.2''), (''apple_docs_json'', ''17.0''), (''apple_support'', ''17.0'')]"
    by (simp add: reported_Cons reported_Nil lookup_sdk_def)
  have "2 \<le> length (remdups (map snd (found_values ''9.0'' ?S)))"
    by (simp add: found_values_reported [OF d] R)
  from cross_reference_conflict [OF this, of "[]"]
  obtain r chosen sdk where r: "cross_reference [] ''9.0'' ?S = Inr r" "status r = conflict"
    "first_by_authority (\<lambda>s. s \<in> set (map fst (found_values ''9.0'' ?S)))
        (found_values ''9.0'' ?S) = Inr chosen"
    "map_of (found_values ''9.0'' ?S) chosen = Some sdk" "ios_sdk r = Some sdk"
    by blast
  from r(3) have "chosen = ''local_xcodebuild''"
    by (simp add: found_values_reported [OF d] R first_by_authority_def SOURCE_NAMES_def)
  with r(4) have "sdk = ''17.2''"
    by (simp add: found_values_reported [OF d] R)
  with r(5) have i: "ios_sdk r = Some ''17.2''" by simp
  from agreement_rounded_ratio [OF d sub, of "[]" "''9.0''"] r(1) r(2) i
  have "agreement r = py_round2 (1 / 3) \<and> 0 < agreement r \<and> agreement r < 1"
    by (auto simp: R)
  with r(1) r(2) i d sub show ?thesis by blast
qed

section \<open>Cross-reference engine: what a source contributes\<close>

lemma reported_empty_iff:
  "reported v S = [] \<longleftrightarrow> (\<forall>(s, d) \<in> set S. lookup_sdk d v = None)"
  by (induction S) (auto simp: reported_Nil reported_Cons split: option.splits)

lemma map_of_reported:
  assumes "distinct (map fst S)" "(s, d) \<in> set S"
  shows "map_of (reported v S) s = lookup_sdk d v"
proof (cases "lookup_sdk d v")
  case None
  have "s \<notin> fst ` set (reported v S)"
  proof
    assume "s \<in> fst ` set (reported v S)"
    then obtain x where "(s, x) \<in> set (reported v S)" by auto
    then obtain d' where d': "(s, d') \<in> set S" "lookup_sdk d' v = Some x"
      by (auto simp: set_reported)
    from assms d'(1) have "d' = d" by (metis map_of_is_SomeI option.inject)
    with d'(2) None show False by simp
  qed
  then show ?thesis using None by (simp add: map_of_eq_None_iff)
next
  case (Some x)
  with assms(2) have "(s, x) \<in> set (reported v S)" by (auto simp: set_reported)
  moreover have "distinct (map fst (reported v S))" using assms(1) by (rule distinct_reported)
  ultimately show ?thesis using Some by simp
qed

lemma cross_reference_sources:
  assumes "cross_reference U v S = Inr r"
  shows "sources r =
    map (\<lambda>(s, _). (s, ((case map_of (found_values v S) s of
                             Some x \<Rightarrow> if x \<noteq> [] then x else no_data
                           | None \<Rightarrow> no_data),
                          url_for U v s))) S"
  using assms
  by (auto simp: cross_reference_def Let_def split: if_splits sum.splits prod.splits)

lemma map_of_keyed:
  "(s, d) \<in> set S \<Longrightarrow> map_of (map (\<lambda>(s, _). (s, g s)) S) s = Some (g s)"
  by (induction S) auto

lemma find_holds: "find P xs = Some x \<Longrightarrow> P x \<and> x \<in> set xs"
  by (induction xs) (auto split: if_splits)

lemma source_entry:
  assumes "distinct (map fst S)" "(s, d) \<in> set S" "cross_reference U v S = Inr r"
  shows "map_of (sources r) s =
           Some ((case lookup_sdk d v of
                    Some x \<Rightarrow> if x \<noteq> [] then x else no_data
                  | None \<Rightarrow> no_data),
                 url_for U v s)"
proof -
  let ?g = "\<lambda>s. ((case map_of (found_values v S) s of
                             Some x \<Rightarrow> if x \<noteq> [] then x else no_data
                           | None \<Rightarrow> no_data),
                          url_for U v s)"
  have "sources r = map (\<lambda>(s, _). (s, ?g s)) S"
    using assms(3) by (rule cross_reference_sources)
  moreover have "map_of (map (\<lambda>(s, _). (s, ?g s)) S) s = Some (?g s)"
    using assms(2) by (rule map_of_keyed)
  moreover have "map_of (found_values v S) s = lookup_sdk d v"
    using assms(1,2) by (simp add: found_values_reported map_of_reported)
  ultimately show ?thesis by simp
qed

lemma only_reporter:
  assumes "distinct (map fst S)" "(s, d) \<in> set S" "lookup_sdk d v = Some x"
    "\<forall>(s', d') \<in> set S. s' \<noteq> s \<longrightarrow> lookup_sdk d' v = None"
  shows "reported v S = [(s, x)]"
  using assms
proof (induction S)
  case Nil
  then show ?case by simp
next
  case (Cons p S)
  obtain s0 d0 where p: "p = (s0, d0)" by (cases p)
  show ?case
  proof (cases "s0 = s")
    case True
    with Cons.prems(1) p have notin: "s \<notin> fst ` set S" by auto
    with Cons.prems(2) p True have "d0 = d" by force
    have "\<forall>(s', d') \<in> set S. lookup_sdk d' v = None"
      using Cons.prems(4) notin by force
    then have "reported v S = []" by (simp only: reported_empty_iff)
    with True p \<open>d0 = d\<close> Cons.prems(3) show ?thesis by (simp add: reported_Cons)
  next
    case False
    with Cons.prems(4) p have n: "lookup_sdk d0 v = None" by auto
    from False Cons.prems(2) p have "(s, d) \<in> set S" by auto
    moreover from Cons.prems(1) have "distinct (map fst S)" by simp
    moreover from Cons.prems(4) have "\<forall>(s', d') \<in> set S. s' \<noteq> s \<longrightarrow> lookup_sdk d' v = None"
      by simp
    ultimately have "reported v S = [(s, x)]" using Cons.prems(3) Cons.IH by blast
    with n p show ?thesis by (simp add: reported_Cons)
  qed
qed

lemma cross_reference_single:
  assumes "found_values v S = [(s, x)]"
  shows "\<exists>r. cross_reference U v S = Inr r \<and> ios_sdk r = Some x \<and> status r = single_source
           \<and> chosen_from r = Some s \<and> agreement r = 1"
proof -
  have "remdups (map snd (found_values v S)) = [x]" by (simp add: assms)
  from cross_reference_unique [OF this, of U]
  obtain r chosen where r: "cross_reference U v S = Inr r" "ios_sdk r = Some x"
    "status r = (if 1 < length (found_values v S) then consensus else single_source)"
    "first_by_authority (\<lambda>t. map_of (found_values v S) t = Some x) (found_values v S)
       = Inr chosen"
    "chosen_from r = Some chosen" "agreement r = 1"
    by blast
  have "chosen = s"
  proof (cases "find (\<lambda>t. map_of [(s, x)] t = Some x) SOURCE_NAMES")
    case None
    with r(4) show ?thesis by (simp add: assms first_by_authority_def)
  next
    case (Some t)
    from find_holds [OF this] have "map_of [(s, x)] t = Some x" by blast
    then have "t = s" by (simp split: if_splits)
    with Some r(4) show ?thesis by (simp add: assms first_by_authority_def)
  qed
  with r show ?thesis by (simp add: assms)
qed

lemma lookup_sdk_Some_iff:
  "lookup_sdk d v = Some x \<longleftrightarrow>
     map_of d v = Some x
     \<or> (map_of d v = None \<and> length (split_on CHR ''.'' v) = 3
         \<and> map_of d (major_minor (split_on CHR ''.'' v)) = Some x)"
  by (auto simp: lookup_sdk_def Let_def split: option.splits)

lemma lookup_sdk_None_iff:
  "lookup_sdk d v = None \<longleftrightarrow>
     map_of d v = None
     \<and> (length (split_on CHR ''.'' v) = 3 \<longrightarrow>
          map_of d (major_minor (split_on CHR ''.'' v)) = None)"
  by (auto simp: lookup_sdk_def Let_def split: option.splits)

lemma cross_reference_total: "\<exists>r. cross_reference U v S = Inr r"
proof (cases "map snd (found_values v S)" rule: remdups_cases)
  case none
  then have "found_values v S = []" by simp
  from cross_reference_not_found [OF this, of U] show ?thesis by blast
next
  case (one x)
  from cross_reference_unique [OF one(1), of U] show ?thesis by blast
next
  case more
  from cross_reference_conflict [OF more(1), of U] show ?thesis by blast
qed

lemma status_not_found_iff:
  assumes "cross_reference U v S = Inr r"
  shows "status r = not_found \<longleftrightarrow> found_values v S = []"
proof (cases "map snd (found_values v S)" rule: remdups_cases)
  case none
  then have e: "found_values v S = []" by simp
  from cross_reference_not_found [OF this, of U] assms e show ?thesis by auto
next
  case (one x)
  from cross_reference_unique [OF one(1), of U] assms one(2) show ?thesis by auto
next
  case more
  from cross_reference_conflict [OF more(1), of U] assms more(2) show ?thesis by auto
qed

lemma contribution_in_record:
  assumes dist: "distinct (map fst S)" and r: "cross_reference U v S = Inr r"
    and m: "(s, d) \<in> set S" and x: "lookup_sdk d v = Some x"
  shows "status r \<noteq> not_found"
    "map_option fst (map_of (sources r) s) = Some (if x \<noteq> [] then x else no_data)"
    "(\<forall>(s', d') \<in> set S. s' \<noteq> s \<longrightarrow> lookup_sdk d' v = None) \<Longrightarrow>
       ios_sdk r = Some x \<and> status r = single_source \<and> chosen_from r = Some s"
proof -
  have f: "found_values v S = reported v S" using dist by (rule found_values_reported)
  from m x have "(s, x) \<in> set (reported v S)" by (auto simp: set_reported)
  then have "found_values v S \<noteq> []" using f by auto
  then show "status r \<noteq> not_found" using status_not_found_iff [OF r] by simp
  show "map_option fst (map_of (sources r) s) = Some (if x \<noteq> [] then x else no_data)"
    using source_entry [OF dist m r] x by simp
  assume "\<forall>(s', d') \<in> set S. s' \<noteq> s \<longrightarrow> lookup_sdk d' v = None"
  with dist m x have "reported v S = [(s, x)]" by (rule only_reporter)
  then have "found_values v S = [(s, x)]" using f by simp
  from cross_reference_single [OF this, of U] r
  show "ios_sdk r = Some x \<and> status r = single_source \<and> chosen_from r = Some s" by auto
qed

text \<open>
  Claim C5. For a version of exactly three dot-separated components that is absent from
  a source's map, the lookup is the lookup of the first two components joined by a dot;
  a version that is present is returned directly, and no other version is retried.
  The value found either way is what the source contributes to the record: the status
  is \<open>not_found\<close> exactly when every source misses the version both directly and
  through the fallback; a source that finds a value makes the status differ from
  \<open>not_found\<close>, has that value as its entry of \<open>sources\<close>, and, when it is the
  only one to find a value, gives the record its resolved value as a
  \<open>single_source\<close>. With \<open>"12.5.1"\<close> absent and \<open>"12.5"\<close> mapped to
  \<open>"18.2"\<close>, the record for \<open>"12.5.1"\<close> resolves to \<open>"18.2"\<close>.
\<close>

theorem lookup_fallback:
  "(map_of d v = None \<and> length (split_on CHR ''.'' v) = 3 \<longrightarrow>
      lookup_sdk d v = map_of d (major_minor (split_on CHR ''.'' v)))
   \<and> (split_on CHR ''.'' v = [a, b, c] \<longrightarrow> major_minor (split_on CHR ''.'' v) = a @ ''.'' @ b)
   \<and> (map_of d v = None \<and> length (split_on CHR ''.'' v) \<noteq> 3 \<longrightarrow> lookup_sdk d v = None)
   \<and> (map_of d v \<noteq> None \<longrightarrow> lookup_sdk d v = map_of d v)
   \<and> (distinct (map fst all_sources) \<longrightarrow>
        (\<exists>r. cross_reference U v all_sources = Inr r
           \<and> (status r = not_found \<longleftrightarrow>
                (\<forall>(s, d) \<in> set all_sources.
                    map_of d v = None
                    \<and> (length (split_on CHR ''.'' v) = 3 \<longrightarrow>
                         map_of d (major_minor (split_on CHR ''.'' v)) = None)))
           \<and> (\<forall>(s, d) \<in> set all_sources. \<forall>x.
                 (map_of d v = Some x
                  \<or> (map_of d v = None \<and> length (split_on CHR ''.'' v) = 3
                      \<and> map_of d (major_minor (split_on CHR ''.'' v)) = Some x)) \<longrightarrow>
                 status r \<noteq> not_found
                 \<and> map_option fst (map_of (sources r) s) = Some (if x \<noteq> [] then x else no_data)
                 \<and> ((\<forall>(s', d') \<in> set all_sources. s' \<noteq> s \<longrightarrow>
                         map_of d' v = None
                         \<and> (length (split_on CHR ''.'' v) = 3 \<longrightarrow>
                              map_of d' (major_minor (split_on CHR ''.'' v)) = None)) \<longrightarrow>
                      ios_sdk r = Some x \<and> status r = single_source
                      \<and> chosen_from r = Some s))))
   \<and> (map_of d ''12.5.1'' = None \<and> map_of d ''12.5'' = Some ''18.2'' \<longrightarrow>
        (\<exists>r. cross_reference U ''12.5.1'' [(s, d)] = Inr r \<and> ios_sdk r = Some ''18.2''
           \<and> status r = single_source \<and> chosen_from r = Some s
           \<and> map_option fst (map_of (sources r) s) = Some ''18.2''))
   \<and> lookup_sdk [(''12.5'', ''18.2'')] ''12.5.1'' = Some ''18.2''"
proof -
  have 1: "map_of d v = None \<and> length (split_on CHR ''.'' v) = 3 \<longrightarrow>
      lookup_sdk d v = map_of d (major_minor (split_on CHR ''.'' v))"
    by (simp add: lookup_sdk_def)
  have 2: "split_on CHR ''.'' v = [a, b, c] \<longrightarrow> major_minor (split_on CHR ''.'' v) = a @ ''.'' @ b"
    by (simp add: major_minor_def)
  have 3: "map_of d v = None \<and> length (split_on CHR ''.'' v) \<noteq> 3 \<longrightarrow> lookup_sdk d v = None"
    by (simp add: lookup_sdk_def)
  have 4: "map_of d v \<noteq> None \<longrightarrow> lookup_sdk d v = map_of d v"
    by (auto simp: lookup_sdk_def)
  have 5: "\<exists>r. cross_reference U v all_sources = Inr r
           \<and> (status r = not_found \<longleftrightarrow>
                (\<forall>(s, d) \<in> set all_sources.
                    map_of d v = None
                    \<and> (length (split_on CHR ''.'' v) = 3 \<longrightarrow>
                         map_of d (major_minor (split_on CHR ''.'' v)) = None)))
           \<and> (\<forall>(s, d) \<in> set all_sources. \<forall>x.
                 (map_of d v = Some x
                  \<or> (map_of d v = None \<and> length (split_on CHR ''.'' v) = 3
                      \<and> map_of d (major_minor (split_on CHR ''.'' v)) = Some x)) \<longrightarrow>
                 status r \<noteq> not_found
                 \<and> map_option fst (map_of (sources r) s) = Some (if x \<noteq> [] then x else no_data)
                 \<and> ((\<forall>(s', d') \<in> set all_sources. s' \<noteq> s \<longrightarrow>
                         map_of d' v = None
                         \<and> (length (split_on CHR ''.'' v) = 3 \<longrightarrow>
                              map_of d' (major_minor (split_on CHR ''.'' v)) = None)) \<longrightarrow>
                      ios_sdk r = Some x \<and> status r = single_source
                      \<and> chosen_from r = Some s))"
    if dist: "distinct (map fst all_sources)"
  proof -
    obtain r where r: "cross_reference U v all_sources = Inr r"
      using cross_reference_total by blast
    have f: "found_values v all_sources = reported v all_sources"
      using dist by (rule found_values_reported)
    have nf: "status r = not_found \<longleftrightarrow>
                (\<forall>(s, d) \<in> set all_sources.
                    map_of d v = None
                    \<and> (length (split_on CHR ''.'' v) = 3 \<longrightarrow>
                         map_of d (major_minor (split_on CHR ''.'' v)) = None))"
      using status_not_found_iff [OF r] f
      by (simp add: reported_empty_iff lookup_sdk_None_iff)
    have each: "status r \<noteq> not_found
                 \<and> map_option fst (map_of (sources r) s) = Some (if x \<noteq> [] then x else no_data)
                 \<and> ((\<forall>(s', d') \<in> set all_sources. s' \<noteq> s \<longrightarrow>
                         map_of d' v = None
                         \<and> (length (split_on CHR ''.'' v) = 3 \<longrightarrow>
                              map_of d' (major_minor (split_on CHR ''.'' v)) = None)) \<longrightarrow>
                      ios_sdk r = Some x \<and> status r = single_source
                      \<and> chosen_from r = Some s)"
      if m: "(s, d) \<in> set all_sources"
        and c: "map_of d v = Some x
                  \<or> (map_of d v = None \<and> length (split_on CHR ''.'' v) = 3
                      \<and> map_of d (major_minor (split_on CHR ''.'' v)) = Some x)"
      for s d x
    proof -
      from c have x: "lookup_sdk d v = Some x" by (simp only: lookup_sdk_Some_iff)
      from contribution_in_record [OF dist r m x] show ?thesis
        by (simp add: lookup_sdk_None_iff)
    qed
    from r nf each show ?thesis by blast
  qed
  have 6: "\<exists>r. cross_reference U ''12.5.1'' [(s, d)] = Inr r \<and> ios_sdk r = Some ''18.2''
           \<and> status r = single_source \<and> chosen_from r = Some s
           \<and> map_option fst (map_of (sources r) s) = Some ''18.2''"
    if a: "map_of d ''12.5.1'' = None" "map_of d ''12.5'' = Some ''18.2''"
  proof -
    have x: "lookup_sdk d ''12.5.1'' = Some ''18.2''"
      using a by (simp add: lookup_sdk_def major_minor_def)
    have dist: "distinct (map fst [(s, d)])" by simp
    obtain r where r: "cross_reference U ''12.5.1'' [(s, d)] = Inr r"
      using cross_reference_total by blast
    have m: "(s, d) \<in> set [(s, d)]" by simp
    from contribution_in_record [OF dist r m x] r show ?thesis by auto
  qed
  have 7: "lookup_sdk [(''12.5'', ''18.2'')] ''12.5.1'' = Some ''18.2''"
    by (simp add: lookup_sdk_def major_minor_def)
  from 1 2 3 4 5 6 7 show ?thesis by blast
qed

theorem lookup_fallback_witness:
  "map_of [(''12.5'', ''18.2'')] ''12.5.1'' = None
   \<and> length (split_on CHR ''.'' ''12.5.1'') = 3
   \<and> map_of [(''12.5'', ''18.2'')] (major_minor (split_on CHR ''.'' ''12.5.1'')) = Some ''18.2''
   \<and> lookup_sdk [(''12.5'', ''18.2'')] ''12.5.1'' = map_of [(''12.5'', ''18.2'')] ''12.5''
   \<and> distinct (map fst [(''xcodereleases'', [(''12.5'', ''18.2'')])])
   \<and> (\<exists>r. cross_reference [] ''12.5.1'' [(''xcodereleases'', [(''12.5'', ''18.2'')])] = Inr r
          \<and> status r = single_source \<and> ios_sdk r = Some ''18.2''
          \<and> chosen_from r = Some ''xcodereleases''
          \<and> map_option fst (map_of (sources r) ''xcodereleases'') = Some ''18.2'')"
  using lookup_fallback [of "[(''12.5'', ''18.2'')]" "''12.5.1''" "''12''" "''5''" "''1''"
      "[(''xcodereleases'', [(''12.5'', ''18.2'')])]" "[]" "''xcodereleases''"]
  by (auto simp: major_minor_def)


section \<open>Cross-reference engine: authority in a conflict\<close>

lemma find_after_prefix:
  "\<forall>x \<in> set pre. \<not> P x \<Longrightarrow> P y \<Longrightarrow> find P (pre @ y # rest) = Some y"
  by (induction pre) auto

lemma first_of_two:
  assumes "SOURCE_NAMES = pre @ hi # mid @ lo # post"
  shows "find (\<lambda>s. s = hi \<or> s = lo) SOURCE_NAMES = Some hi" "hi \<noteq> lo"
proof -
  have "distinct (pre @ hi # mid @ lo # post)"
    using distinct_SOURCE_NAMES by (simp only: assms)
  then have d: "hi \<notin> set pre" "lo \<notin> set pre" "hi \<noteq> lo" by auto
  then have "\<forall>x \<in> set pre. \<not> (x = hi \<or> x = lo)" by auto
  then have "find (\<lambda>s. s = hi \<or> s = lo) (pre @ hi # mid @ lo # post) = Some hi"
    by (rule find_after_prefix) simp
  then show "find (\<lambda>s. s = hi \<or> s = lo) SOURCE_NAMES = Some hi" by (simp only: assms)
  from d show "hi \<noteq> lo" by simp
qed

lemma two_elem_list:
  assumes "distinct xs" "set xs = {p, q}" "p \<noteq> q"
  shows "xs = [p, q] \<or> xs = [q, p]"
proof -
  have "length xs = card (set xs)" using assms(1) by (simp add: distinct_card)
  also have "\<dots> = 2" using assms(2,3) by simp
  finally have "length xs = 2" .
  then obtain x y where xy: "xs = [x, y]"
    by (cases xs; cases "tl xs") auto
  with assms(2) have "{x, y} = {p, q}" by simp
  then have "(x = p \<and> y = q) \<or> (x = q \<and> y = p)" by (auto simp: doubleton_eq_iff)
  with xy show ?thesis by auto
qed

lemma py_round2_half: "py_round2 (1 / 2) = 1 / 2"
  using round_half_even_of_int [of 50] by (simp add: py_round2_def)

lemma conflict_resolution:
  assumes "distinct (map fst S)" "set (map fst S) \<subseteq> set SOURCE_NAMES"
    "\<exists>x \<in> snd ` set (reported v S). \<exists>y \<in> snd ` set (reported v S). x \<noteq> y"
  shows "\<exists>r s d sdk. cross_reference U v S = Inr r \<and> status r = conflict
           \<and> chosen_from r = Some s
           \<and> find (\<lambda>s. s \<in> fst ` set (reported v S)) SOURCE_NAMES = Some s
           \<and> (s, d) \<in> set S \<and> lookup_sdk d v = Some sdk \<and> ios_sdk r = Some sdk"
proof -
  let ?R = "reported v S"
  have f: "found_values v S = ?R" using assms(1) by (rule found_values_reported)
  show ?thesis
  proof (cases "map snd ?R" rule: remdups_cases)
    case none
    with assms(3) show ?thesis by simp
  next
    case (one x)
    with assms(3) show ?thesis by auto
  next
    case more
    then obtain r chosen sdk where r: "cross_reference U v S = Inr r"
      "first_by_authority (\<lambda>s. s \<in> set (map fst ?R)) ?R = Inr chosen"
      "map_of ?R chosen = Some sdk" "ios_sdk r = Some sdk" "chosen_from r = Some chosen"
      "status r = conflict"
      using cross_reference_conflict [of v S U] f by auto
    from more have ne: "?R \<noteq> []" by auto
    have sub: "set (map fst ?R) \<subseteq> set SOURCE_NAMES"
      using keys_reported [of v S] assms(2) by auto
    have "find (\<lambda>s. s \<in> set (map fst ?R)) SOURCE_NAMES = Some chosen"
      using ne sub r(2) by (rule first_in_authority_order)
    then have fnd: "find (\<lambda>s. s \<in> fst ` set ?R) SOURCE_NAMES = Some chosen" by simp
    from r(3) have "(chosen, sdk) \<in> set ?R" by (rule map_of_SomeD)
    then obtain d where "(chosen, d) \<in> set S" "lookup_sdk d v = Some sdk"
      by (auto simp: set_reported)
    with r fnd show ?thesis by blast
  qed
qed

lemma conflict_two_sources:
  assumes dist: "distinct (map fst S)"
    and names: "SOURCE_NAMES = pre @ hi # mid @ lo # post"
    and rep: "set (reported v S) = {(hi, a), (lo, b)}"
    and ab: "a \<noteq> b"
  shows "\<exists>r. cross_reference U v S = Inr r \<and> status r = conflict \<and> ios_sdk r = Some a
           \<and> chosen_from r = Some hi \<and> agreement r = 1 / 2"
proof -
  let ?R = "reported v S"
  have f: "found_values v S = ?R" using dist by (rule found_values_reported)
  from first_of_two [OF names]
  have fnd: "find (\<lambda>s. s = hi \<or> s = lo) SOURCE_NAMES = Some hi" and hl: "hi \<noteq> lo" .
  have "distinct (map fst ?R)" using dist by (rule distinct_reported)
  then have "distinct ?R" by (simp add: distinct_map)
  moreover have "(hi, a) \<noteq> (lo, b)" using ab by simp
  ultimately have shape: "?R = [(hi, a), (lo, b)] \<or> ?R = [(lo, b), (hi, a)]"
    using rep by (intro two_elem_list)
  then have two: "2 \<le> length (remdups (map snd (found_values v S)))"
    using ab f by auto
  from cross_reference_conflict [OF this, of U]
  obtain r chosen sdk where r: "cross_reference U v S = Inr r" "status r = conflict"
    "first_by_authority (\<lambda>s. s \<in> set (map fst ?R)) ?R = Inr chosen"
    "map_of ?R chosen = Some sdk" "ios_sdk r = Some sdk" "chosen_from r = Some chosen"
    "agreement r = py_round2 (of_nat (length (filter (\<lambda>x. x = sdk) (map snd ?R)))
                              / of_nat (length ?R))"
    unfolding f by blast
  have ne: "?R \<noteq> []" using shape by auto
  have "(\<lambda>s. s \<in> set (map fst ?R)) = (\<lambda>s. s = hi \<or> s = lo)"
    using shape by auto
  with fnd have "find (\<lambda>s. s \<in> set (map fst ?R)) SOURCE_NAMES = Some hi" by simp
  from first_by_authority_find [OF ne this] r(3) have c: "chosen = hi" by simp
  with r(4) shape hl have s: "sdk = a" by auto
  have ratio: "of_nat (length (filter (\<lambda>x. x = a) (map snd ?R))) / of_nat (length ?R)
                 = (1 / 2 :: rat)"
  proof (rule disjE [OF shape])
    assume e: "?R = [(hi, a), (lo, b)]"
    show ?thesis unfolding e using ab by simp
  next
    assume e: "?R = [(lo, b), (hi, a)]"
    show ?thesis unfolding e using ab by simp
  qed
  have "agreement r = py_round2 (1 / 2)"
    using r(7) unfolding s ratio .
  then have "agreement r = 1 / 2" by (simp only: py_round2_half)
  with r c s show ?thesis by blast
qed

lemma two_maps_reported:
  assumes "hi \<noteq> lo" "map_of dh v = Some a" "map_of dl v = Some b"
  shows "distinct (map fst [(hi, dh), (lo, dl)])"
    "set (reported v [(hi, dh), (lo, dl)]) = {(hi, a), (lo, b)}"
    "distinct (map fst [(lo, dl), (hi, dh)])"
    "set (reported v [(lo, dl), (hi, dh)]) = {(hi, a), (lo, b)}"
  using assms by (auto simp: reported_Cons reported_Nil lookup_sdk_def)

lemma status_conflict_values:
  assumes "distinct (map fst S)" "cross_reference U v S = Inr r" "status r = conflict"
  shows "\<exists>x \<in> snd ` set (reported v S). \<exists>y \<in> snd ` set (reported v S). x \<noteq> y"
proof -
  let ?R = "reported v S"
  have f: "found_values v S = ?R" using assms(1) by (rule found_values_reported)
  show ?thesis
  proof (cases "map snd ?R" rule: remdups_cases)
    case none
    then have "found_values v S = []" using f by simp
    from cross_reference_not_found [OF this, of U]
    obtain r' where "cross_reference U v S = Inr r'" "status r' = not_found" by blast
    with assms(2,3) show ?thesis by simp
  next
    case (one x)
    then have "remdups (map snd (found_values v S)) = [x]" using f by simp
    from cross_reference_unique [OF this, of U]
    obtain r' where "cross_reference U v S = Inr r'"
      "status r' = (if 1 < length (found_values v S) then consensus else single_source)"
      by blast
    with assms(2,3) show ?thesis by (simp split: if_splits)
  next
    case more
    from more(3) show ?thesis by simp
  qed
qed

text \<open>
  Claim C1. \<open>main\<close> calls the engine with the sources of \<open>SOURCE_NAMES\<close>. For
  such a dictionary, whenever the sources report two or more distinct values for a
  version, the record has status \<open>conflict\<close>, its chosen source is the first name
  of \<open>SOURCE_NAMES\<close> among the sources that report a value, whatever the other
  sources say, and its resolved value is the value that source reports; and a record has
  status \<open>conflict\<close> in no other case. For any two sources \<open>hi\<close> and \<open>lo\<close>,
  \<open>hi\<close> before \<open>lo\<close> in \<open>SOURCE_NAMES\<close>, that are the only ones to report and
  report different values, the record is a conflict resolved to the value of \<open>hi\<close>,
  chosen from \<open>hi\<close>, with agreement one half; so it is for \<open>"9.0"\<close> mapped to
  \<open>"17.2"\<close> by \<open>hi\<close> and to \<open>"17.0"\<close> by \<open>lo\<close>, in either order of the
  dictionary.
\<close>

theorem conflict_authority:
  assumes "distinct (map fst all_sources)" "set (map fst all_sources) \<subseteq> set SOURCE_NAMES"
  shows "(2 \<le> length (reported v all_sources)
          \<and> (\<exists>x \<in> snd ` set (reported v all_sources).
               \<exists>y \<in> snd ` set (reported v all_sources). x \<noteq> y) \<longrightarrow>
        (\<exists>r s d sdk. cross_reference U v all_sources = Inr r \<and> status r = conflict
           \<and> chosen_from r = Some s
           \<and> find (\<lambda>s. s \<in> fst ` set (reported v all_sources)) SOURCE_NAMES = Some s
           \<and> (s, d) \<in> set all_sources \<and> lookup_sdk d v = Some sdk
           \<and> ios_sdk r = Some sdk))
   \<and> (\<exists>r. cross_reference U v all_sources = Inr r
     \<and> (status r = conflict \<longrightarrow>
          (\<exists>s d sdk. chosen_from r = Some s
             \<and> find (\<lambda>s. s \<in> fst ` set (reported v all_sources)) SOURCE_NAMES = Some s
             \<and> (s, d) \<in> set all_sources \<and> lookup_sdk d v = Some sdk
             \<and> ios_sdk r = Some sdk)))
   \<and> (SOURCE_NAMES = pre @ hi # mid @ lo # post
        \<and> set (reported v all_sources) = {(hi, a), (lo, b)} \<and> a \<noteq> b \<longrightarrow>
        (\<exists>r. cross_reference U v all_sources = Inr r \<and> status r = conflict
           \<and> ios_sdk r = Some a \<and> chosen_from r = Some hi \<and> agreement r = 1 / 2))
   \<and> (SOURCE_NAMES = pre @ hi # mid @ lo # post
        \<and> map_of dh ''9.0'' = Some ''17.2'' \<and> map_of dl ''9.0'' = Some ''17.0'' \<longrightarrow>
        (\<exists>r. cross_reference U ''9.0'' [(hi, dh), (lo, dl)] = Inr r \<and> status r = conflict
           \<and> ios_sdk r = Some ''17.2'' \<and> chosen_from r = Some hi \<and> agreement r = 1 / 2)
        \<and> (\<exists>r. cross_reference U ''9.0'' [(lo, dl), (hi, dh)] = Inr r \<and> status r = conflict
           \<and> ios_sdk r = Some ''17.2'' \<and> chosen_from r = Some hi \<and> agreement r = 1 / 2))"
proof (intro conjI)
  let ?R = "reported v all_sources"
  show "2 \<le> length ?R
          \<and> (\<exists>x \<in> snd ` set ?R. \<exists>y \<in> snd ` set ?R. x \<noteq> y) \<longrightarrow>
        (\<exists>r s d sdk. cross_reference U v all_sources = Inr r \<and> status r = conflict
           \<and> chosen_from r = Some s
           \<and> find (\<lambda>s. s \<in> fst ` set ?R) SOURCE_NAMES = Some s
           \<and> (s, d) \<in> set all_sources \<and> lookup_sdk d v = Some sdk
           \<and> ios_sdk r = Some sdk)"
  proof (intro impI, elim conjE)
    assume "\<exists>x \<in> snd ` set ?R. \<exists>y \<in> snd ` set ?R. x \<noteq> y"
    with assms show "\<exists>r s d sdk. cross_reference U v all_sources = Inr r \<and> status r = conflict
           \<and> chosen_from r = Some s
           \<and> find (\<lambda>s. s \<in> fst ` set ?R) SOURCE_NAMES = Some s
           \<and> (s, d) \<in> set all_sources \<and> lookup_sdk d v = Some sdk
           \<and> ios_sdk r = Some sdk"
      by (rule conflict_resolution)
  qed
  show "\<exists>r. cross_reference U v all_sources = Inr r
     \<and> (status r = conflict \<longrightarrow>
          (\<exists>s d sdk. chosen_from r = Some s
             \<and> find (\<lambda>s. s \<in> fst ` set ?R) SOURCE_NAMES = Some s
             \<and> (s, d) \<in> set all_sources \<and> lookup_sdk d v = Some sdk
             \<and> ios_sdk r = Some sdk))"
  proof -
    obtain r where r: "cross_reference U v all_sources = Inr r"
      using cross_reference_total by blast
    have "\<exists>s d sdk. chosen_from r = Some s
             \<and> find (\<lambda>s. s \<in> fst ` set ?R) SOURCE_NAMES = Some s
             \<and> (s, d) \<in> set all_sources \<and> lookup_sdk d v = Some sdk
             \<and> ios_sdk r = Some sdk"
      if c: "status r = conflict"
    proof -
      from assms(1) r c
      have "\<exists>x \<in> snd ` set ?R. \<exists>y \<in> snd ` set ?R. x \<noteq> y"
        by (rule status_conflict_values)
      with assms
      have "\<exists>r' s d sdk. cross_reference U v all_sources = Inr r' \<and> status r' = conflict
           \<and> chosen_from r' = Some s
           \<and> find (\<lambda>s. s \<in> fst ` set ?R) SOURCE_NAMES = Some s
           \<and> (s, d) \<in> set all_sources \<and> lookup_sdk d v = Some sdk
           \<and> ios_sdk r' = Some sdk"
        by (rule conflict_resolution)
      then obtain r' s d sdk where p: "cross_reference U v all_sources = Inr r'"
        "chosen_from r' = Some s"
        "find (\<lambda>s. s \<in> fst ` set ?R) SOURCE_NAMES = Some s"
        "(s, d) \<in> set all_sources" "lookup_sdk d v = Some sdk" "ios_sdk r' = Some sdk"
        by (elim exE conjE)
      from p(1) r have "r' = r" by simp
      with p show ?thesis by (intro exI [of _ s] exI [of _ d] exI [of _ sdk]) simp
    qed
    with r show ?thesis by (intro exI [of _ r]) simp
  qed
  show "SOURCE_NAMES = pre @ hi # mid @ lo # post
        \<and> set ?R = {(hi, a), (lo, b)} \<and> a \<noteq> b \<longrightarrow>
        (\<exists>r. cross_reference U v all_sources = Inr r \<and> status r = conflict
           \<and> ios_sdk r = Some a \<and> chosen_from r = Some hi \<and> agreement r = 1 / 2)"
  proof (intro impI, elim conjE)
    assume "SOURCE_NAMES = pre @ hi # mid @ lo # post" "set ?R = {(hi, a), (lo, b)}" "a \<noteq> b"
    with assms(1) show "\<exists>r. cross_reference U v all_sources = Inr r \<and> status r = conflict
           \<and> ios_sdk r = Some a \<and> chosen_from r = Some hi \<and> agreement r = 1 / 2"
      by (rule conflict_two_sources)
  qed
  show "SOURCE_NAMES = pre @ hi # mid @ lo # post
        \<and> map_of dh ''9.0'' = Some ''17.2'' \<and> map_of dl ''9.0'' = Some ''17.0'' \<longrightarrow>
        (\<exists>r. cross_reference U ''9.0'' [(hi, dh), (lo, dl)] = Inr r \<and> status r = conflict
           \<and> ios_sdk r = Some ''17.2'' \<and> chosen_from r = Some hi \<and> agreement r = 1 / 2)
        \<and> (\<exists>r. cross_reference U ''9.0'' [(lo, dl), (hi, dh)] = Inr r \<and> status r = conflict
           \<and> ios_sdk r = Some ''17.2'' \<and> chosen_from r = Some hi \<and> agreement r = 1 / 2)"
  proof (intro impI, elim conjE)
    assume n: "SOURCE_NAMES = pre @ hi # mid @ lo # post"
      and h: "map_of dh ''9.0'' = Some ''17.2''" and l: "map_of dl ''9.0'' = Some ''17.0''"
    from first_of_two [OF n] have hl: "hi \<noteq> lo" by simp
    have ne: "''17.2'' \<noteq> ''17.0''" by simp
    note t = two_maps_reported [OF hl h l]
    show "(\<exists>r. cross_reference U ''9.0'' [(hi, dh), (lo, dl)] = Inr r \<and> status r = conflict
           \<and> ios_sdk r = Some ''17.2'' \<and> chosen_from r = Some hi \<and> agreement r = 1 / 2)
        \<and> (\<exists>r. cross_reference U ''9.0'' [(lo, dl), (hi, dh)] = Inr r \<and> status r = conflict
           \<and> ios_sdk r = Some ''17.2'' \<and> chosen_from r = Some hi \<and> agreement r = 1 / 2)"
      using conflict_two_sources [OF t(1) n t(2) ne, of U]
        conflict_two_sources [OF t(3) n t(4) ne, of U]
      by (rule conjI)
  qed
qed

theorem conflict_authority_witness:
  "distinct (map fst [(''xcodereleases'', [(''9.0'', ''17.0''), (''8.0'', ''10.0'')]),
                      (''wikipedia_xcode'', [(''9.0'', ''17.0'')]),
                      (''apple_support'', [(''9.0'', ''17.2'')])])
   \<and> set (map fst [(''xcodereleases'', [(''9.0'', ''17.0''), (''8.0'', ''10.0'')]),
                    (''wikipedia_xcode'', [(''9.0'', ''17.0'')]),
                    (''apple_support'', [(''9.0'', ''17.2'')])]) \<subseteq> set SOURCE_NAMES
   \<and> 2 \<le> length (reported ''9.0''
           [(''xcodereleases'', [(''9.0'', ''17.0''), (''8.0'', ''10.0'')]),
            (''wikipedia_xcode'', [(''9.0'', ''17.0'')]),
            (''apple_support'', [(''9.0'', ''17.2'')])])
   \<and> (\<exists>r. cross_reference [] ''9.0''
              [(''xcodereleases'', [(''9.0'', ''17.0''), (''8.0'', ''10.0'')]),
               (''wikipedia_xcode'', [(''9.0'', ''17.0'')]),
               (''apple_support'', [(''9.0'', ''17.2'')])] = Inr r
          \<and> status r = conflict
          \<and> chosen_from r = Some ''apple_support''
          \<and> ios_sdk r = Some ''17.2'')
   \<and> SOURCE_NAMES = [''local_xcodebuild'', ''apple_docs_json''] @ ''apple_support'' # []
         @ ''xcodereleases'' # [''apple_archive_9'', ''apple_archive_47'', ''wikipedia_history'',
                               ''wikipedia_xcode'']
   \<and> (\<exists>r. cross_reference [] ''9.0''
              [(''xcodereleases'', [(''9.0'', ''17.0'')]),
               (''apple_support'', [(''9.0'', ''17.2'')])] = Inr r
          \<and> status r = conflict \<and> ios_sdk r = Some ''17.2''
          \<and> chosen_from r = Some ''apple_support'' \<and> agreement r = 1 / 2)"
proof -
  let ?S = "[(''xcodereleases'', [(''9.0'', ''17.0''), (''8.0'', ''10.0'')]),
             (''wikipedia_xcode'', [(''9.0'', ''17.0'')]),
             (''apple_support'', [(''9.0'', ''17.2'')])]"
  have d: "distinct (map fst ?S)" by simp
  have sub: "set (map fst ?S) \<subseteq> set SOURCE_NAMES" by (simp add: SOURCE_NAMES_def)
  have R: "reported ''9.0'' ?S =
      [(''xcodereleases'', ''17.0''), (''wikipedia_xcode'', ''17.0''), (''apple_support'', ''17.2'')]"
    by (simp add: reported_Cons reported_Nil lookup_sdk_def)
  have n: "SOURCE_NAMES = [''local_xcodebuild'', ''apple_docs_json''] @ ''apple_support'' # []
         @ ''xcodereleases'' # [''apple_archive_9'', ''apple_archive_47'', ''wikipedia_history'',
                               ''wikipedia_xcode'']"
    by (simp add: SOURCE_NAMES_def)
  have h: "map_of [(''9.0'', ''17.2'')] ''9.0'' = Some ''17.2''"
    and l: "map_of [(''9.0'', ''17.0'')] ''9.0'' = Some ''17.0''" by simp_all
  have len: "2 \<le> length (reported ''9.0'' ?S)" by (simp add: R)
  have v1: "''17.0'' \<in> snd ` set (reported ''9.0'' ?S)"
    and v2: "''17.2'' \<in> snd ` set (reported ''9.0'' ?S)" by (simp_all add: R)
  have ne: "''17.0'' \<noteq> ''17.2''" by simp
  from v2 ne have "\<exists>y \<in> snd ` set (reported ''9.0'' ?S). ''17.0'' \<noteq> y" by (rule bexI [rotated])
  with v1 have "\<exists>x \<in> snd ` set (reported ''9.0'' ?S).
      \<exists>y \<in> snd ` set (reported ''9.0'' ?S). x \<noteq> y" by (rule bexI [rotated])
  with len have two: "2 \<le> length (reported ''9.0'' ?S)
     \<and> (\<exists>x \<in> snd ` set (reported ''9.0'' ?S). \<exists>y \<in> snd ` set (reported ''9.0'' ?S). x \<noteq> y)"
    by (rule conjI)
  note inst = conflict_authority [OF d sub, of "''9.0''" "[]"
      "[''local_xcodebuild'', ''apple_docs_json'']" "''apple_support''" "[]" "''xcodereleases''"
      "[''apple_archive_9'', ''apple_archive_47'', ''wikipedia_history'', ''wikipedia_xcode'']"
      "''17.2''" "''17.0''" "[(''9.0'', ''17.2'')]" "[(''9.0'', ''17.0'')]"]
  note A = inst [THEN conjunct1, THEN mp, OF two]
  note D = inst [THEN conjunct2, THEN conjunct2, THEN conjunct2, THEN mp,
      OF conjI [OF n conjI [OF h l]], THEN conjunct2]
  from A obtain r s dd sdk where c: "cross_reference [] ''9.0'' ?S = Inr r"
      "status r = conflict" "chosen_from r = Some s"
      "find (\<lambda>s. s \<in> fst ` set (reported ''9.0'' ?S)) SOURCE_NAMES = Some s"
      "(s, dd) \<in> set ?S" "lookup_sdk dd ''9.0'' = Some sdk" "ios_sdk r = Some sdk"
    by (elim exE conjE)
  from c(4) have s: "s = ''apple_support''" by (simp add: R SOURCE_NAMES_def)
  with c(5) have "dd = [(''9.0'', ''17.2'')]" by simp
  with c(6) have k: "sdk = ''17.2''" by (simp add: lookup_sdk_def)
  have 1: "\<exists>r. cross_reference [] ''9.0'' ?S = Inr r \<and> status r = conflict
          \<and> chosen_from r = Some ''apple_support'' \<and> ios_sdk r = Some ''17.2''"
    using c(1,2,3,7) unfolding s k by (intro exI [of _ r] conjI)
  show ?thesis
    by (rule conjI [OF d conjI [OF sub conjI [OF len conjI [OF 1 conjI [OF n D]]]]])
qed

section \<open>Output helpers: the flat mapping\<close>

lemma those_None_iff: "those xs = None \<longleftrightarrow> None \<in> set xs"
  by (induction xs) (auto split: option.splits)

lemma those_all_Some: "None \<notin> set xs \<Longrightarrow> those xs = Some (map the xs)"
proof (induction xs)
  case Nil
  show ?case by simp
next
  case (Cons a xs)
  then obtain y where "a = Some y" by (cases a) auto
  with Cons show ?case by simp
qed

lemma ver_key_unparsed:
  assumes "\<exists>p \<in> set (split_on CHR ''.'' v). py_int p = None"
  shows "ver_key py_int v = [0]"
proof -
  from assms have "None \<in> set (map py_int (split_on CHR ''.'' v))" by force
  then have "those (map py_int (split_on CHR ''.'' v)) = None" by (simp only: those_None_iff)
  then show ?thesis by (simp add: ver_key_def)
qed

lemma ver_key_parsed:
  assumes "\<forall>p \<in> set (split_on CHR ''.'' v). py_int p \<noteq> None"
  shows "ver_key py_int v = map (the \<circ> py_int) (split_on CHR ''.'' v)"
proof -
  from assms have "None \<notin> set (map py_int (split_on CHR ''.'' v))" by auto
  then have "those (map py_int (split_on CHR ''.'' v))
               = Some (map the (map py_int (split_on CHR ''.'' v)))"
    by (rule those_all_Some)
  then show ?thesis by (simp add: ver_key_def)
qed

lemma ver_key_numeric:
  assumes "py_int ''9'' = Some 9" "py_int ''2'' = Some 2" "py_int ''10'' = Some 10"
    "py_int ''0'' = Some 0"
  shows "ver_key py_int ''9.2'' < ver_key py_int ''10.0''"
  using assms by (simp add: ver_key_def)

lemma ascii_int_samples:
  "ascii_int ''9'' = Some 9" "ascii_int ''2'' = Some 2" "ascii_int ''10'' = Some 10"
  "ascii_int ''0'' = Some 0" "ascii_int ''7'' = Some 7" "ascii_int ''1'' = Some 1"
  "ascii_int ''x'' = None"
  by (simp_all add: ascii_int_def strip_def is_space_def digits_def is_digit_def
      digit_value_def)

lemma results_to_flat_fold:
  "results_to_flat py_int results
     = fold flat_step (sort_key (\<lambda>r. ver_key py_int (xcode r)) results) []"
  by (simp add: results_to_flat_def flat_step_def)

lemma flat_step_skip: "\<not> kept r \<Longrightarrow> flat_step r flat = flat"
  by (auto simp: flat_step_def kept_def split: option.splits)

lemma flat_step_keep:
  "ios_sdk r = Some sdk \<Longrightarrow> sdk \<noteq> [] \<Longrightarrow> flat_step r flat = AList.update (xcode r) sdk flat"
  by (simp add: flat_step_def)

lemma set_update_subset: "set (AList.update k v al) \<subseteq> insert (k, v) (set al)"
  by (induction al) auto

lemma keys_fold_flat:
  "fst ` set (fold flat_step rs acc) = fst ` set acc \<union> {xcode r | r. r \<in> set rs \<and> kept r}"
proof (induction rs arbitrary: acc)
  case Nil
  show ?case by simp
next
  case (Cons r rs)
  show ?case
  proof (cases "kept r")
    case False
    then show ?thesis using Cons.IH [of acc] by (auto simp: flat_step_skip)
  next
    case True
    then obtain sdk where s: "ios_sdk r = Some sdk" "sdk \<noteq> []" by (auto simp: kept_def)
    have "fst ` set (flat_step r acc) = insert (xcode r) (fst ` set acc)"
      by (simp add: flat_step_keep [OF s] dom_update)
    with True show ?thesis using Cons.IH [of "flat_step r acc"] by auto
  qed
qed

lemma distinct_fold_flat:
  "distinct (map fst acc) \<Longrightarrow> distinct (map fst (fold flat_step rs acc))"
proof (induction rs arbitrary: acc)
  case Nil
  then show ?case by simp
next
  case (Cons r rs)
  have "distinct (map fst (flat_step r acc))"
    using Cons.prems by (auto simp: flat_step_def distinct_update split: option.splits)
  then show ?case by (simp add: Cons.IH)
qed

lemma entries_fold_flat:
  "set (fold flat_step rs acc)
     \<subseteq> set acc \<union> (\<lambda>r. (xcode r, the (ios_sdk r))) ` {r \<in> set rs. kept r}"
proof (induction rs arbitrary: acc)
  case Nil
  show ?case by simp
next
  case (Cons r rs)
  have "set (flat_step r acc)
          \<subseteq> set acc \<union> (\<lambda>r. (xcode r, the (ios_sdk r))) ` {r' \<in> {r}. kept r'}"
  proof (cases "kept r")
    case False
    then show ?thesis by (simp add: flat_step_skip)
  next
    case True
    then obtain sdk where s: "ios_sdk r = Some sdk" "sdk \<noteq> []" by (auto simp: kept_def)
    with True set_update_subset [of "xcode r" sdk acc] show ?thesis
      by (auto simp: flat_step_keep [OF s])
  qed
  with Cons.IH [of "flat_step r acc"] show ?case by auto
qed

lemma sorted_drop_middle:
  "sorted (xs @ y # ys) \<Longrightarrow> sorted (xs @ (ys :: 'a :: linorder list))"
  by (auto simp: sorted_append)

lemma keys_flat_step:
  "map fst (flat_step r acc) = map fst acc \<or> map fst (flat_step r acc) = map fst acc @ [xcode r]"
  by (auto simp: flat_step_def update_keys split: option.splits)

lemma sorted_fold_flat:
  "sorted (map key (map fst acc @ map xcode rs)) \<Longrightarrow>
   sorted (map (key :: string \<Rightarrow> int list) (map fst (fold flat_step rs acc)))"
proof (induction rs arbitrary: acc)
  case Nil
  then show ?case by simp
next
  case (Cons r rs)
  have "sorted (map key (map fst (flat_step r acc) @ map xcode rs))"
  proof (rule disjE [OF keys_flat_step [of r acc]])
    assume e: "map fst (flat_step r acc) = map fst acc"
    from Cons.prems have "sorted (map key (map fst acc) @ key (xcode r) # map key (map xcode rs))"
      by simp
    then have "sorted (map key (map fst acc) @ map key (map xcode rs))"
      by (rule sorted_drop_middle)
    then show ?thesis by (simp add: e)
  next
    assume e: "map fst (flat_step r acc) = map fst acc @ [xcode r]"
    from Cons.prems show ?thesis by (simp add: e)
  qed
  then have "sorted (map key (map fst (fold flat_step rs (flat_step r acc))))"
    by (rule Cons.IH)
  then show ?case by simp
qed

lemma map_of_fold_flat_other:
  "k \<notin> xcode ` set rs \<Longrightarrow> map_of (fold flat_step rs acc) k = map_of acc k"
proof (induction rs arbitrary: acc)
  case Nil
  show ?case by simp
next
  case (Cons r rs)
  then have k: "k \<noteq> xcode r" "k \<notin> xcode ` set rs" by auto
  have "map_of (flat_step r acc) k = map_of acc k"
    using k(1) by (auto simp: flat_step_def update_conv' split: option.splits)
  with Cons.IH [OF k(2), of "flat_step r acc"] show ?case by simp
qed

lemma map_of_fold_flat:
  "distinct (map xcode rs) \<Longrightarrow> r \<in> set rs \<Longrightarrow> ios_sdk r = Some sdk \<Longrightarrow> sdk \<noteq> [] \<Longrightarrow>
   map_of (fold flat_step rs acc) (xcode r) = Some sdk"
proof (induction rs arbitrary: acc)
  case Nil
  then show ?case by simp
next
  case (Cons r' rs)
  show ?case
  proof (cases "r = r'")
    case True
    with Cons.prems have "xcode r \<notin> xcode ` set rs" by auto
    then have "map_of (fold flat_step rs (flat_step r acc)) (xcode r)
                 = map_of (flat_step r acc) (xcode r)"
      by (rule map_of_fold_flat_other)
    also have "\<dots> = Some sdk"
      using Cons.prems by (simp add: flat_step_keep update_conv')
    finally show ?thesis using True by simp
  next
    case False
    with Cons.prems have "distinct (map xcode rs)" "r \<in> set rs" by auto
    from Cons.IH [OF this Cons.prems(3,4), of "flat_step r' acc"] show ?thesis by simp
  qed
qed

lemma distinct_map_sort_key:
  "distinct (map f xs) \<Longrightarrow> distinct (map f (sort_key g xs))"
  by (simp add: distinct_map)

text \<open>
  A record of the engine resolves to an empty string only if a source holds one; the
  source functions store no empty SDK, and the data model has none.
\<close>

lemma resolved_in_reported:
  assumes "distinct (map fst all_sources)" "cross_reference U v all_sources = Inr r"
    "ios_sdk r = Some x"
  shows "x \<in> snd ` set (reported v all_sources)"
proof -
  let ?R = "reported v all_sources"
  have f: "found_values v all_sources = ?R"
    using assms(1) by (rule found_values_reported)
  show ?thesis
  proof (cases "map snd ?R" rule: remdups_cases)
    case none
    then have "found_values v all_sources = []" using f by simp
    from cross_reference_not_found [OF this, of U] assms(2,3) show ?thesis by auto
  next
    case (one y)
    then obtain r' where "cross_reference U v all_sources = Inr r'" "ios_sdk r' = Some y"
      using cross_reference_unique [of v all_sources y U] f by auto
    with assms(2,3) have "x = y" by simp
    moreover have "y \<in> set (remdups (map snd ?R))" using one by simp
    ultimately show ?thesis by simp
  next
    case more
    then obtain r' chosen sdk where "cross_reference U v all_sources = Inr r'"
      "map_of ?R chosen = Some sdk" "ios_sdk r' = Some sdk"
      using cross_reference_conflict [of v all_sources U] f by auto
    with assms(2,3) have "map_of ?R chosen = Some x" by simp
    then have "(chosen, x) \<in> set ?R" by (rule map_of_SomeD)
    then show ?thesis by force
  qed
qed

lemma lookup_sdk_in_map: "lookup_sdk d v = Some x \<Longrightarrow> x \<in> snd ` set d"
proof -
  assume "lookup_sdk d v = Some x"
  then obtain k where "map_of d k = Some x"
    by (auto simp: lookup_sdk_def Let_def split: option.splits if_splits)
  then have "(k, x) \<in> set d" by (rule map_of_SomeD)
  then show ?thesis by force
qed

lemma cross_reference_sdk_nonempty:
  assumes "distinct (map fst all_sources)" "\<forall>(s, d) \<in> set all_sources. [] \<notin> snd ` set d"
    "cross_reference U v all_sources = Inr r"
  shows "ios_sdk r \<noteq> Some []"
proof
  assume "ios_sdk r = Some []"
  with assms(1,3) have "[] \<in> snd ` set (reported v all_sources)"
    by (rule resolved_in_reported)
  then obtain s where "(s, []) \<in> set (reported v all_sources)" by auto
  then obtain d where d: "(s, d) \<in> set all_sources" "lookup_sdk d v = Some []"
    by (auto simp: set_reported)
  from d(2) have "[] \<in> snd ` set d" by (rule lookup_sdk_in_map)
  with d(1) assms(2) show False by auto
qed

text \<open>
  Claim C6. For a list of resolution records, whose resolved value is an SDK identifier
  or is absent and so is never the empty string, the keys of the flat mapping are
  exactly the versions of the records with a resolved value; no key is repeated, every
  value is the resolved value of a record of that version (so none is null), and with
  one record per version each resolved version maps to its value. The keys come in
  ascending order of \<open>ver_key\<close>, which compares the integer components, so that
  \<open>"9.2"\<close> is before \<open>"10.0"\<close>; a version with a component that \<open>int\<close>
  refuses has the key \<open>[0]\<close>, and nothing raises.
\<close>

theorem results_to_flat_spec:
  assumes "\<forall>r \<in> set results. ios_sdk r \<noteq> Some []"
  shows "set (map fst (results_to_flat py_int results))
     = {xcode r | r. r \<in> set results \<and> ios_sdk r \<noteq> None}
   \<and> distinct (map fst (results_to_flat py_int results))
   \<and> (\<forall>(k, sdk) \<in> set (results_to_flat py_int results).
        \<exists>r \<in> set results. xcode r = k \<and> ios_sdk r = Some sdk)
   \<and> sorted (map (ver_key py_int) (map fst (results_to_flat py_int results)))
   \<and> (distinct (map xcode results) \<longrightarrow>
        (\<forall>r \<in> set results. \<forall>sdk. ios_sdk r = Some sdk \<longrightarrow>
            map_of (results_to_flat py_int results) (xcode r) = Some sdk))
   \<and> (py_int ''9'' = Some 9 \<and> py_int ''2'' = Some 2 \<and> py_int ''10'' = Some 10
        \<and> py_int ''0'' = Some 0 \<longrightarrow>
        ver_key py_int ''9.2'' < ver_key py_int ''10.0'')
   \<and> ((\<exists>p \<in> set (split_on CHR ''.'' v). py_int p = None) \<longrightarrow> ver_key py_int v = [0])
   \<and> ((\<forall>p \<in> set (split_on CHR ''.'' v). py_int p \<noteq> None) \<longrightarrow>
        ver_key py_int v = map (the \<circ> py_int) (split_on CHR ''.'' v))"
proof -
  let ?srt = "sort_key (\<lambda>r. ver_key py_int (xcode r)) results"
  let ?flat = "results_to_flat py_int results"
  have k: "kept r \<longleftrightarrow> ios_sdk r \<noteq> None" if "r \<in> set results" for r
    using assms that by (auto simp: kept_def)
  have "set (map fst ?flat) = {xcode r | r. r \<in> set results \<and> kept r}"
    using keys_fold_flat [of ?srt "[]"] by (simp add: results_to_flat_fold)
  also have "\<dots> = {xcode r | r. r \<in> set results \<and> ios_sdk r \<noteq> None}"
    using k by blast
  finally have 1: "set (map fst ?flat) = {xcode r | r. r \<in> set results \<and> ios_sdk r \<noteq> None}" .
  have 2: "distinct (map fst ?flat)"
    using distinct_fold_flat [of "[]" ?srt] by (simp add: results_to_flat_fold)
  have 3: "\<forall>(k, sdk) \<in> set ?flat. \<exists>r \<in> set results. xcode r = k \<and> ios_sdk r = Some sdk"
  proof clarify
    fix k sdk
    assume "(k, sdk) \<in> set ?flat"
    with entries_fold_flat [of ?srt "[]"]
    have "(k, sdk) \<in> (\<lambda>r. (xcode r, the (ios_sdk r))) ` {r \<in> set results. kept r}"
      by (auto simp: results_to_flat_fold)
    then obtain r where "r \<in> set results" "kept r" "k = xcode r" "sdk = the (ios_sdk r)"
      by auto
    then show "\<exists>r \<in> set results. xcode r = k \<and> ios_sdk r = Some sdk"
      by (auto simp: kept_def)
  qed
  have "sorted (map (\<lambda>r. ver_key py_int (xcode r)) ?srt)" by (rule sorted_sort_key)
  then have "sorted (map (ver_key py_int) (map fst [] @ map xcode ?srt))"
    by (simp add: comp_def)
  then have 4: "sorted (map (ver_key py_int) (map fst ?flat))"
    unfolding results_to_flat_fold by (rule sorted_fold_flat)
  have 5: "distinct (map xcode results) \<longrightarrow>
        (\<forall>r \<in> set results. \<forall>sdk. ios_sdk r = Some sdk \<longrightarrow>
            map_of ?flat (xcode r) = Some sdk)"
  proof (intro impI ballI allI)
    fix r sdk
    assume d: "distinct (map xcode results)" and r: "r \<in> set results"
      and s: "ios_sdk r = Some sdk"
    from assms r s have ne: "sdk \<noteq> []" by auto
    from d have "distinct (map xcode ?srt)" by (rule distinct_map_sort_key)
    moreover from r have "r \<in> set ?srt" by simp
    ultimately show "map_of ?flat (xcode r) = Some sdk"
      unfolding results_to_flat_fold using s ne by (rule map_of_fold_flat)
  qed
  have 6: "py_int ''9'' = Some 9 \<and> py_int ''2'' = Some 2 \<and> py_int ''10'' = Some 10
        \<and> py_int ''0'' = Some 0 \<longrightarrow>
        ver_key py_int ''9.2'' < ver_key py_int ''10.0''"
    using ver_key_numeric [of py_int] by blast
  from 1 2 3 4 5 6 ver_key_unparsed [of v py_int] ver_key_parsed [of v py_int]
  show ?thesis by blast
qed

lemma ver_key_samples:
  "ver_key ascii_int ''10.0'' = [10, 0]" "ver_key ascii_int ''7.1'' = [7, 1]"
  "ver_key ascii_int ''9.2'' = [9, 2]"
  by (simp_all add: ver_key_def ascii_int_samples)

lemma results_to_flat_sample:
  "results_to_flat ascii_int sample_results = [(''9.2'', ''11.2''), (''10.0'', ''12.0'')]"
  by (simp add: results_to_flat_def sample_results_def ver_key_samples)

theorem results_to_flat_spec_witness:
  "list_all (\<lambda>r. ios_sdk r \<noteq> Some []) sample_results
   \<and> results_to_flat ascii_int sample_results = [(''9.2'', ''11.2''), (''10.0'', ''12.0'')]
   \<and> set (map fst (results_to_flat ascii_int sample_results)) = {''9.2'', ''10.0''}
   \<and> distinct (map xcode sample_results)
   \<and> map_of (results_to_flat ascii_int sample_results) ''9.2'' = Some ''11.2''
   \<and> sorted (map (ver_key ascii_int) (map fst (results_to_flat ascii_int sample_results)))
   \<and> ascii_int ''9'' = Some 9 \<and> ascii_int ''2'' = Some 2 \<and> ascii_int ''10'' = Some 10
   \<and> ascii_int ''0'' = Some 0 \<and> ver_key ascii_int ''9.2'' < ver_key ascii_int ''10.0''
   \<and> ''x'' \<in> set (split_on CHR ''.'' ''9.x'') \<and> ascii_int ''x'' = None
   \<and> ver_key ascii_int ''9.x'' = [0]
   \<and> list_all (\<lambda>p. ascii_int p \<noteq> None) (split_on CHR ''.'' ''9.2'')
   \<and> ver_key ascii_int ''9.2'' = [9, 2]"
proof -
  have h: "\<forall>r \<in> set sample_results. ios_sdk r \<noteq> Some []"
    by (simp add: sample_results_def)
  have x: "''x'' \<in> set (split_on CHR ''.'' ''9.x'')" "ascii_int ''x'' = None"
    by (simp_all add: ascii_int_samples)
  then have a: "\<exists>p \<in> set (split_on CHR ''.'' ''9.x''). ascii_int p = None" by blast
  have b: "\<forall>p \<in> set (split_on CHR ''.'' ''9.2''). ascii_int p \<noteq> None"
    by (simp add: ascii_int_samples)
  have d: "distinct (map xcode sample_results)" by (simp add: sample_results_def)
  have r: "\<lparr>xcode = ''9.2'', ios_sdk = Some ''11.2'', status = single_source,
       chosen_from = Some ''xcodereleases'', agreement = 1, sources = []\<rparr> \<in> set sample_results"
    by (simp add: sample_results_def)
  from results_to_flat_spec [OF h, of ascii_int "''9.x''"] a ascii_int_samples
  have 1: "sorted (map (ver_key ascii_int) (map fst (results_to_flat ascii_int sample_results)))"
    "ver_key ascii_int ''9.x'' = [0]" "ver_key ascii_int ''9.2'' < ver_key ascii_int ''10.0''"
    by blast+
  from results_to_flat_spec [OF h, of ascii_int "''9.2''"] b d
  have 2: "ver_key ascii_int ''9.2'' = map (the \<circ> ascii_int) (split_on CHR ''.'' ''9.2'')"
    and 4: "\<forall>r \<in> set sample_results. \<forall>sdk. ios_sdk r = Some sdk \<longrightarrow>
            map_of (results_to_flat ascii_int sample_results) (xcode r) = Some sdk"
    by blast+
  from 4 r have 5: "map_of (results_to_flat ascii_int sample_results) ''9.2'' = Some ''11.2''"
    by force
  have 3: "map (the \<circ> ascii_int) (split_on CHR ''.'' ''9.2'') = [9, 2]"
    by (simp add: ascii_int_samples)
  from b have b': "list_all (\<lambda>p. ascii_int p \<noteq> None) (split_on CHR ''.'' ''9.2'')"
    by (simp only: list_all_iff)
  from h have h': "list_all (\<lambda>r. ios_sdk r \<noteq> Some []) sample_results"
    by (simp only: list_all_iff)
  from 1 2 3 5 x b' d h' show ?thesis
    by (simp add: results_to_flat_sample ascii_int_samples)
qed

section \<open>Change detection\<close>

lemma json_eq_str_iff: "json_eq_str av bv \<longleftrightarrow> av = JString bv"
  by (cases av) auto

lemma dict_eq_flat_iff:
  "dict_eq_flat a b \<longleftrightarrow>
     length a = length b
     \<and> (\<forall>(k, av) \<in> set a. \<exists>bv. map_of b k = Some bv \<and> av = JString bv)"
  by (auto simp: dict_eq_flat_def list_all_iff json_eq_str_iff split: option.splits)

lemma dict_eq_flat_maps:
  assumes da: "distinct (map fst a)" and db: "distinct (map fst b)"
  shows "dict_eq_flat a b \<longleftrightarrow> (\<forall>k. map_of a k = map_option JString (map_of b k))"
proof
  assume e: "dict_eq_flat a b"
  then have len: "length a = length b"
    and val: "\<And>k av. (k, av) \<in> set a \<Longrightarrow> \<exists>bv. map_of b k = Some bv \<and> av = JString bv"
    by (auto simp: dict_eq_flat_iff)
  have sub: "fst ` set a \<subseteq> fst ` set b"
  proof
    fix k assume "k \<in> fst ` set a"
    then obtain av where "(k, av) \<in> set a" by auto
    from val [OF this] have "map_of b k \<noteq> None" by auto
    then show "k \<in> fst ` set b" by (simp add: map_of_eq_None_iff)
  qed
  have "card (fst ` set a) = length a" using da by (metis distinct_card length_map list.set_map)
  moreover have "card (fst ` set b) = length b"
    using db by (metis distinct_card length_map list.set_map)
  ultimately have "card (fst ` set a) = card (fst ` set b)" using len by simp
  with sub have keys: "fst ` set a = fst ` set b" by (intro card_subset_eq) auto
  show "\<forall>k. map_of a k = map_option JString (map_of b k)"
  proof
    fix k
    show "map_of a k = map_option JString (map_of b k)"
    proof (cases "map_of a k")
      case None
      then have "k \<notin> fst ` set a" by (simp add: map_of_eq_None_iff)
      with keys have "map_of b k = None" by (simp add: map_of_eq_None_iff)
      with None show ?thesis by simp
    next
      case (Some av)
      then have "(k, av) \<in> set a" by (rule map_of_SomeD)
      from val [OF this] Some show ?thesis by auto
    qed
  qed
next
  assume m: "\<forall>k. map_of a k = map_option JString (map_of b k)"
  have keys: "fst ` set a = fst ` set b"
  proof -
    have "k \<in> fst ` set a \<longleftrightarrow> k \<in> fst ` set b" for k
    proof -
      have "k \<in> fst ` set a \<longleftrightarrow> map_of a k \<noteq> None" by (simp add: map_of_eq_None_iff)
      also have "\<dots> \<longleftrightarrow> map_of b k \<noteq> None" using m by simp
      also have "\<dots> \<longleftrightarrow> k \<in> fst ` set b" by (simp add: map_of_eq_None_iff)
      finally show ?thesis .
    qed
    then show ?thesis by blast
  qed
  have "card (fst ` set a) = length a" using da by (metis distinct_card length_map list.set_map)
  moreover have "card (fst ` set b) = length b"
    using db by (metis distinct_card length_map list.set_map)
  ultimately have len: "length a = length b" using keys by simp
  have "\<exists>bv. map_of b k = Some bv \<and> av = JString bv" if "(k, av) \<in> set a" for k av
  proof -
    from da that have "map_of a k = Some av" by simp
    with m have "map_option JString (map_of b k) = Some av" by simp
    then show ?thesis by auto
  qed
  with len show "dict_eq_flat a b" by (auto simp: dict_eq_flat_iff)
qed

text \<open>
  Claim C9. Without a previous file, or with one that cannot be read or parsed, the
  verdict is "changed". With a previous file that loads as a dictionary, the verdict is
  "unchanged" exactly when the two dictionaries are the same mapping from keys to
  values, each value of the old one being the string the new one has under that key; the
  order of the entries plays no part. A previous file that loads as anything but a
  dictionary gives "changed".
\<close>

theorem map_changed_spec:
  "map_changed No_file flat_new
   \<and> map_changed Load_failed flat_new
   \<and> (distinct (map fst flat_old) \<and> distinct (map fst flat_new) \<longrightarrow>
        (map_changed (Loaded (JObject flat_old)) flat_new \<longleftrightarrow>
           \<not> (\<forall>k. map_of flat_old k = map_option JString (map_of flat_new k))))
   \<and> ((\<forall>obj. j \<noteq> JObject obj) \<longrightarrow> map_changed (Loaded j) flat_new)"
proof -
  have 1: "map_changed No_file flat_new" "map_changed Load_failed flat_new"
    by (simp_all add: map_changed_def)
  have 2: "distinct (map fst flat_old) \<and> distinct (map fst flat_new) \<longrightarrow>
        (map_changed (Loaded (JObject flat_old)) flat_new \<longleftrightarrow>
           \<not> (\<forall>k. map_of flat_old k = map_option JString (map_of flat_new k)))"
    using dict_eq_flat_maps [of flat_old flat_new]
    by (simp add: map_changed_def json_eq_flat_def)
  have 3: "(\<forall>obj. j \<noteq> JObject obj) \<longrightarrow> map_changed (Loaded j) flat_new"
    by (cases j) (simp_all add: map_changed_def json_eq_flat_def)
  from 1 2 3 show ?thesis by blast
qed

theorem map_changed_spec_witness:
  "distinct (map fst [(''9.2'', JString ''11.2''), (''10.0'', JString ''12.0'')])
   \<and> distinct (map fst [(''10.0'', ''12.0''), (''9.2'', ''11.2'')])
   \<and> \<not> map_changed (Loaded (JObject [(''9.2'', JString ''11.2''), (''10.0'', JString ''12.0'')]))
          [(''10.0'', ''12.0''), (''9.2'', ''11.2'')]
   \<and> (\<forall>k. map_of [(''9.2'', JString ''11.2''), (''10.0'', JString ''12.0'')] k
          = map_option JString (map_of [(''10.0'', ''12.0''), (''9.2'', ''11.2'')] k))
   \<and> (\<forall>obj. JArray [] \<noteq> JObject obj) \<and> map_changed (Loaded (JArray [])) []"
proof -
  have m: "\<forall>k. map_of [(''9.2'', JString ''11.2''), (''10.0'', JString ''12.0'')] k
          = map_option JString (map_of [(''10.0'', ''12.0''), (''9.2'', ''11.2'')] k)"
    by simp
  from map_changed_spec [of "[(''10.0'', ''12.0''), (''9.2'', ''11.2'')]"
      "[(''9.2'', JString ''11.2''), (''10.0'', JString ''12.0'')]" "JArray []"] m
  have "\<not> map_changed (Loaded (JObject [(''9.2'', JString ''11.2''), (''10.0'', JString ''12.0'')]))
          [(''10.0'', ''12.0''), (''9.2'', ''11.2'')]"
    by simp
  moreover from map_changed_spec [of "[]" "[]" "JArray []"]
  have "map_changed (Loaded (JArray [])) []" by simp
  ultimately show ?thesis using m by simp
qed

section \<open>Main: the empty universe\<close>


lemma raw_sources_empty:
  assumes "\<forall>(name, data) \<in> set fetched. data = []" "\<forall>(name, data) \<in> set acc. data = []"
  shows "\<forall>(name, data) \<in>
           set (fold (\<lambda>(name, data) raw. AList.update name (normalize_source_keys data) raw)
                     fetched acc). data = []"
  using assms
proof (induction fetched arbitrary: acc)
  case Nil
  then show ?case by simp
next
  case (Cons p fetched)
  obtain name data where p: "p = (name, data)" by (cases p)
  with Cons.prems have d: "data = []" by simp
  have "set (AList.update name (normalize_source_keys data) acc)
          \<subseteq> insert (name, []) (set acc)"
    using set_update_subset [of name "[]" acc] by (simp add: d normalize_source_keys_def)
  with Cons.prems(2)
  have "\<forall>(name, data) \<in> set (AList.update name (normalize_source_keys data) acc). data = []"
    by auto
  moreover from Cons.prems have "\<forall>(name, data) \<in> set fetched. data = []" by simp
  ultimately show ?case using Cons.IH by (simp add: p)
qed

lemma ordered_sources_empty:
  assumes "\<forall>(name, data) \<in> set raw. data = []"
  shows "ordered_sources raw = map (\<lambda>s. (s, [])) SOURCE_NAMES"
proof -
  have "(case map_of raw s of Some d \<Rightarrow> d | None \<Rightarrow> []) = []" for s
  proof (cases "map_of raw s")
    case None
    then show ?thesis by simp
  next
    case (Some d)
    then have "(s, d) \<in> set raw" by (rule map_of_SomeD)
    with assms Some show ?thesis by auto
  qed
  then show ?thesis by (simp add: ordered_sources_def)
qed

text \<open>
  Claim C4. The module's docstring gives the exit codes: 0 for an unchanged map, 1 for an
  updated one, 2 or more for a fatal error. When step 1 lists no version and every source
  returns an empty dictionary, the universe is empty and \<open>main\<close> stops before it
  reconciles or writes anything; but it stops through \<open>sys.exit\<close> with a message,
  so the exit status is 1, the status of an updated map.
\<close>

theorem main_empty_universe:
  assumes "xcodes_versions = []" "\<forall>(name, data) \<in> set fetched. data = []"
  shows "main py_int a xcodes_versions fetched U prev =
           \<lparr>reconciled = None, wrote = None,
            ending = Sys_exit (Exit_message
              ''ERROR: No Xcode versions found from any source. Check network.'')\<rparr>
         \<and> exit_status (ending (main py_int a xcodes_versions fetched U prev)) = 1
         \<and> \<not> 2 \<le> exit_status (ending (main py_int a xcodes_versions fetched U prev))"
proof -
  let ?raw = "fold (\<lambda>(name, data) raw. AList.update name (normalize_source_keys data) raw)
                   fetched []"
  have "\<forall>(name, data) \<in> set ?raw. data = []"
    using assms(2) by (rule raw_sources_empty) simp
  then have o: "ordered_sources ?raw = map (\<lambda>s. (s, [])) SOURCE_NAMES"
    by (rule ordered_sources_empty)
  have "concat (map (\<lambda>(_, src_data). map fst src_data) (map (\<lambda>s. (s, [])) SOURCE_NAMES)) = []"
    by (simp add: SOURCE_NAMES_def)
  then show ?thesis
    by (simp add: main_def o assms(1) Let_def)
qed

lemma changed_run_exit:
  "exit_status (ending (main ascii_int \<lparr>detailed = False, conflicts_only = False\<rparr> []
          [(''xcodereleases'', [(''9'', ''11.0'')])] [] No_file)) = 1"
  by code_simp

theorem main_empty_universe_witness:
  "list_all (\<lambda>(name, data). data = []) (map (\<lambda>s. (s, [])) SOURCE_NAMES)
   \<and> exit_status (ending (main ascii_int \<lparr>detailed = False, conflicts_only = False\<rparr> []
          (map (\<lambda>s. (s, [])) SOURCE_NAMES) [] No_file)) = 1
   \<and> wrote (main ascii_int \<lparr>detailed = False, conflicts_only = False\<rparr> []
          (map (\<lambda>s. (s, [])) SOURCE_NAMES) [] No_file) = None
   \<and> exit_status (ending (main ascii_int \<lparr>detailed = False, conflicts_only = False\<rparr> []
          (map (\<lambda>s. (s, [])) SOURCE_NAMES) [] No_file))
       = exit_status (ending (main ascii_int \<lparr>detailed = False, conflicts_only = False\<rparr> []
          [(''xcodereleases'', [(''9'', ''11.0'')])] [] No_file))"
proof -
  have e: "\<forall>(name, data) \<in> set (map (\<lambda>s. (s, [])) SOURCE_NAMES). data = []"
    by simp
  from main_empty_universe [OF refl e, of ascii_int
      "\<lparr>detailed = False, conflicts_only = False\<rparr>" "[]" No_file]
    e changed_run_exit show ?thesis by (simp add: list_all_iff)
qed

end
